theory Spec2Isabelle
  imports
    Main
    "HOL-Library.Word"
    "HOL-Library.Char_ord"
    "HOL-Library.List_Lexorder"
    "HOL-Library.Product_Lexorder"
begin

section \<open>The job info store of \<^verbatim>\<open>pkg/jobs/job_info_storage.go\<close>\<close>

text \<open>
  A shallow embedding of \<^verbatim>\<open>InfoStorage\<close>: the claim check, the replacing write, the
  point read, the de-duplicating prefix scan and the two legacy adapters. The transaction
  behind the handle is mutable, so every operation takes the handle and returns it
  updated. Tracing spans (\<^verbatim>\<open>tracing.ChildSpan\<close>, \<^verbatim>\<open>sp.Finish\<close>) have no effect on results
  or rows and are left out.
\<close>

subsection \<open>Values, errors, jobs\<close>

text \<open>
  \<^verbatim>\<open>[]byte\<close> is a list of bytes; \<^typ>\<open>char\<close> is a byte, and with \<open>Char_ord\<close> and
  \<open>List_Lexorder\<close> the order on \<^typ>\<open>string\<close> is the bytewise lexicographic one that
  \<^verbatim>\<open>ORDER BY info_key ASC\<close> uses. A nil slice and an empty slice are both \<open>[]\<close>:
  \<^verbatim>\<open>bytes.Equal\<close> does not tell them apart. \<^verbatim>\<open>jobspb.JobID\<close> is an \<^verbatim>\<open>int64\<close>; only its
  equality is used.
\<close>

type_synonym bytes = string
type_synonym JobID = "64 word"

text \<open>
  \<^verbatim>\<open>tree.Datum\<close>, the dynamically typed column value. \<^verbatim>\<open>DBytes\<close> is the only type the
  code asserts; \<open>DNull\<close> is SQL NULL and \<open>DInt\<close> stands for a column of another type.
\<close>

datatype Datum = DBytes bytes | DNull | DInt int

text \<open>
  Arguments of a format string: \<^verbatim>\<open>%q\<close> of a byte string, \<^verbatim>\<open>%d\<close> of a job ID, \<^verbatim>\<open>%T\<close> of a
  datum.
\<close>

datatype fmt_arg = Q bytes | D JobID | T Datum

text \<open>
  Errors by the constructor that makes them: \<^verbatim>\<open>errors.New\<close>, \<^verbatim>\<open>errors.Errorf\<close>,
  \<^verbatim>\<open>errors.AssertionFailedf\<close>, and the annotation \<^verbatim>\<open>errors.CombineErrors\<close> builds when
  both of its arguments are errors. Errors of the backing store are values of the same
  type, as Go's \<^verbatim>\<open>error\<close> interface has them.
\<close>

datatype error =
    New string
  | Errorf string "fmt_arg list"
  | AssertionFailedf string "fmt_arg list"
  | WithSecondaryError error error

text \<open>
  \<^verbatim>\<open>errors.CombineErrors(err, otherErr)\<close> of \<^verbatim>\<open>github.com/cockroachdb/errors\<close>: \<open>otherErr\<close>
  when \<open>err\<close> is nil, \<open>err\<close> when \<open>otherErr\<close> is nil, and otherwise \<open>err\<close> carrying
  \<open>otherErr\<close> as its secondary error.
\<close>

fun CombineErrors :: "error option \<Rightarrow> error option \<Rightarrow> error option" where
  "CombineErrors None otherErr = otherErr"
| "CombineErrors (Some err) None = Some err"
| "CombineErrors (Some err) (Some otherErr) = Some (WithSecondaryError err otherErr)"

text \<open>A call either returns or panics (a failed unchecked type assertion, a nil receiver).\<close>

datatype 'a outcome = Return 'a | Panic

text \<open>
  The part of \<^verbatim>\<open>*Job\<close> the store reads: \<^verbatim>\<open>j.ID()\<close> and \<^verbatim>\<open>j.Session()\<close>, the latter nil
  for a job without a session and otherwise giving the session ID's bytes.
\<close>

record Job =
  ID :: JobID
  Session :: "bytes option"

text \<open>A call of \<^verbatim>\<open>log.VInfof(ctx, level, format, args...)\<close>.\<close>

datatype log_entry = VInfof nat string "fmt_arg list"

subsection \<open>The backing transaction\<close>

text \<open>
  Modelled from the spec: the transactional engine behind \<^verbatim>\<open>isql.Txn\<close> is not part of the
  sources at hand. It is modelled from the SQL text of the five statements the file
  issues and from the spec's interface description (execute a statement, query at most
  one row, query a cursor that is advanced row by row and closed).

  A row of \<^verbatim>\<open>system.job_info\<close> is \<open>(job_id, info_key, written, value)\<close>; \<open>value\<close> is kept as
  a datum since the code checks its type on every read.
\<close>

record info_row =
  row_job_id :: JobID
  row_info_key :: bytes
  row_written :: int
  row_value :: Datum

text \<open>
  The transaction as the handle sees it:
  \<^item> \<open>jobs\<close>: \<^verbatim>\<open>system.jobs\<close> as pairs \<open>(id, claim_session_id)\<close>, looked up by \<open>id\<close>;
  \<^item> \<open>job_info\<close>: the rows of \<^verbatim>\<open>system.job_info\<close>;
  \<^item> \<open>now\<close>: what \<^verbatim>\<open>now()\<close> evaluates to in this transaction;
  \<^item> \<open>stmts\<close>: the operation names of the statements issued so far, oldest first;
  \<^item> \<open>faults\<close>: the store's failures, \<open>(n, e)\<close> meaning that the statement issued after
    \<open>n\<close> earlier ones fails with \<open>e\<close> and changes nothing;
  \<^item> \<open>next_faults\<close>, \<open>close_fault\<close>: the failures of a cursor's \<^verbatim>\<open>Next\<close> calls (by call
    number) and of its \<^verbatim>\<open>Close\<close>;
  \<^item> \<open>vlog\<close>: the verbose log calls made under the operation's context, carried here so
    that they are threaded with the rest of the state.
\<close>

record Txn =
  jobs :: "(JobID \<times> Datum) list"
  job_info :: "info_row list"
  now :: int
  stmts :: "string list"
  faults :: "(nat \<times> error) list"
  next_faults :: "(nat \<times> error) list"
  close_fault :: "error option"
  vlog :: "log_entry list"

text \<open>Issuing a statement records its operation name and tells whether the store fails it.\<close>

definition issue :: "string \<Rightarrow> Txn \<Rightarrow> error option \<times> Txn" where
  "issue opName t = (map_of (faults t) (length (stmts t)), t\<lparr>stmts := stmts t @ [opName]\<rparr>)"

text \<open>
  \<^verbatim>\<open>SELECT claim_session_id FROM system.jobs WHERE id = $1\<close> through \<^verbatim>\<open>QueryRowEx\<close>: an
  error, no row, or the row's single column.
\<close>

definition query_claim_session :: "Txn \<Rightarrow> JobID \<Rightarrow> (error + Datum option) \<times> Txn" where
  "query_claim_session t jid =
     (case issue ''check-claim-session'' t of
        (Some err, t') \<Rightarrow> (Inl err, t')
      | (None, t') \<Rightarrow> (Inr (map_of (jobs t') jid), t'))"

text \<open>The condition \<^verbatim>\<open>job_id = $1 AND info_key = $2\<close> of the point read and of the delete.\<close>

definition key_match :: "JobID \<Rightarrow> bytes \<Rightarrow> info_row \<Rightarrow> bool" where
  "key_match jid k r \<longleftrightarrow> row_job_id r = jid \<and> row_info_key r = k"

text \<open>
  \<^verbatim>\<open>SELECT value FROM system.job_info WHERE job_id = $1 AND info_key = $2
  ORDER BY written DESC LIMIT 1\<close>. Rows with the same \<open>written\<close> keep their table order
  (the sort is stable), which fixes the choice SQL leaves open.
\<close>

definition select_value :: "info_row list \<Rightarrow> JobID \<Rightarrow> bytes \<Rightarrow> Datum option" where
  "select_value rs jid k =
     (case sort_key (\<lambda>r. - row_written r) (filter (key_match jid k) rs) of
        [] \<Rightarrow> None
      | r # _ \<Rightarrow> Some (row_value r))"

definition query_job_info_get :: "Txn \<Rightarrow> JobID \<Rightarrow> bytes \<Rightarrow> (error + Datum option) \<times> Txn" where
  "query_job_info_get t jid k =
     (case issue ''job-info-get'' t of
        (Some err, t') \<Rightarrow> (Inl err, t')
      | (None, t') \<Rightarrow> (Inr (select_value (job_info t') jid k), t'))"

text \<open>\<^verbatim>\<open>DELETE FROM system.job_info WHERE job_id = $1 AND info_key = $2\<close> through \<^verbatim>\<open>ExecEx\<close>.\<close>

definition exec_delete :: "Txn \<Rightarrow> JobID \<Rightarrow> bytes \<Rightarrow> error option \<times> Txn" where
  "exec_delete t jid k =
     (case issue ''write-job-info-delete'' t of
        (Some err, t') \<Rightarrow> (Some err, t')
      | (None, t') \<Rightarrow>
          (None, t'\<lparr>job_info := filter (\<lambda>r. \<not> key_match jid k r) (job_info t')\<rparr>))"

text \<open>
  \<^verbatim>\<open>INSERT INTO system.job_info (job_id, info_key, written, value)
  VALUES ($1, $2, now(), $3)\<close> through \<^verbatim>\<open>ExecEx\<close>.
\<close>

definition exec_insert :: "Txn \<Rightarrow> JobID \<Rightarrow> bytes \<Rightarrow> bytes \<Rightarrow> error option \<times> Txn" where
  "exec_insert t jid k v =
     (case issue ''write-job-info-insert'' t of
        (Some err, t') \<Rightarrow> (Some err, t')
      | (None, t') \<Rightarrow>
          (None, t'\<lparr>job_info := job_info t' @
             [\<lparr>row_job_id = jid, row_info_key = k, row_written = now t',
               row_value = DBytes v\<rparr>]\<rparr>))"

text \<open>
  The cursor \<^verbatim>\<open>isql.Rows\<close>: the rows not yet served, the current row (a placeholder
  before the first successful \<^verbatim>\<open>Next\<close>; the loop reads it only after one), the number of
  \<^verbatim>\<open>Next\<close> calls made, the failures to come and whether it has been closed. A row has the
  two columns \<open>(info_key, value)\<close> of the scan's select list.
\<close>

record Rows =
  remaining :: "(Datum \<times> Datum) list"
  cur :: "Datum \<times> Datum"
  served :: nat
  rows_next_faults :: "(nat \<times> error) list"
  rows_close_fault :: "error option"
  closed :: bool

text \<open>
  \<^verbatim>\<open>rows.Next(ctx)\<close> gives \<open>(ok, err)\<close>: a failure, the end of the rows, or the next row made
  current.
\<close>

definition Next :: "Rows \<Rightarrow> (bool \<times> error option) \<times> Rows" where
  "Next c =
     (case map_of (rows_next_faults c) (served c) of
        Some err \<Rightarrow> ((False, Some err), c\<lparr>served := Suc (served c)\<rparr>)
      | None \<Rightarrow>
          (case remaining c of
             [] \<Rightarrow> ((False, None), c\<lparr>served := Suc (served c)\<rparr>)
           | r # rs \<Rightarrow> ((True, None), c\<lparr>remaining := rs, cur := r, served := Suc (served c)\<rparr>)))"

definition Cur :: "Rows \<Rightarrow> Datum \<times> Datum" where
  "Cur c = cur c"

definition Close :: "Rows \<Rightarrow> error option \<times> Rows" where
  "Close c = (rows_close_fault c, c\<lparr>closed := True\<rparr>)"

text \<open>
  \<^verbatim>\<open>SELECT info_key, value FROM system.job_info
  WHERE job_id = $1 AND substring(info_key for $2) = $3
  ORDER BY info_key ASC, written DESC\<close>, with \<open>$2\<close> the length of the prefix \<open>$3\<close>:
  the condition, the sort key (pairs are ordered lexicographically, and negating
  \<open>written\<close> makes its order descending), and the two columns selected.
\<close>

definition prefix_match :: "JobID \<Rightarrow> bytes \<Rightarrow> info_row \<Rightarrow> bool" where
  "prefix_match jid infoPrefix r \<longleftrightarrow>
     row_job_id r = jid \<and> take (length infoPrefix) (row_info_key r) = infoPrefix"

definition scan_key :: "info_row \<Rightarrow> bytes \<times> int" where
  "scan_key r = (row_info_key r, - row_written r)"

definition scan_cols :: "info_row \<Rightarrow> Datum \<times> Datum" where
  "scan_cols r = (DBytes (row_info_key r), row_value r)"

definition select_prefix :: "info_row list \<Rightarrow> JobID \<Rightarrow> bytes \<Rightarrow> info_row list" where
  "select_prefix rs jid infoPrefix = sort_key scan_key (filter (prefix_match jid infoPrefix) rs)"

definition open_cursor :: "Txn \<Rightarrow> JobID \<Rightarrow> bytes \<Rightarrow> Rows" where
  "open_cursor t jid infoPrefix =
     \<lparr>remaining = map scan_cols (select_prefix (job_info t) jid infoPrefix),
      cur = (DNull, DNull), served = 0,
      rows_next_faults = next_faults t, rows_close_fault = close_fault t,
      closed = False\<rparr>"

definition query_job_info_iter :: "Txn \<Rightarrow> JobID \<Rightarrow> bytes \<Rightarrow> (error + Rows) \<times> Txn" where
  "query_job_info_iter t jid infoPrefix =
     (case issue ''job-info-iter'' t of
        (Some err, t') \<Rightarrow> (Inl err, t')
      | (None, t') \<Rightarrow> (Inr (open_cursor t' jid infoPrefix), t'))"

subsection \<open>The handle and its operations\<close>

text \<open>\<^verbatim>\<open>InfoStorage{j, txn}\<close>; \<open>txn\<close> is \<open>None\<close> for a nil transaction.\<close>

record InfoStorage =
  j :: Job
  txn :: "Txn option"

text \<open>
  \<^verbatim>\<open>checkClaimSession\<close>. The conversion \<^verbatim>\<open>row[0].(*tree.DBytes)\<close> has no \<open>ok\<close> result, so a
  column of another type panics; so does \<^verbatim>\<open>i.j.Session().ID()\<close> on a nil session, which
  every path after the query reaches.
\<close>

definition checkClaimSession :: "Job \<Rightarrow> Txn \<Rightarrow> error option outcome \<times> Txn" where
  "checkClaimSession jb t =
     (case query_claim_session t (ID jb) of
        (Inl err, t') \<Rightarrow> (Return (Some err), t')
      | (Inr row, t') \<Rightarrow>
          (case Session jb of
             None \<Rightarrow> (Panic, t')
           | Some sid \<Rightarrow>
               (case row of
                  None \<Rightarrow>
                    (Return (Some (Errorf ''expected session %q for job ID %d but found none''
                                     [Q sid, D (ID jb)])), t')
                | Some (DBytes storedSession) \<Rightarrow>
                    if storedSession \<noteq> sid
                    then (Return (Some (Errorf ''expected session %q but found %q''
                                          [Q sid, Q storedSession])), t')
                    else (Return None, t')
                | Some _ \<Rightarrow> (Panic, t'))))"

definition get :: "InfoStorage \<Rightarrow> bytes \<Rightarrow> (bytes \<times> bool \<times> error option) \<times> InfoStorage" where
  "get i infoKey =
     (case txn i of
        None \<Rightarrow>
          (([], False,
            Some (New ''cannot access the job info table without an associated txn'')), i)
      | Some t \<Rightarrow>
          (case query_job_info_get t (ID (j i)) infoKey of
             (Inl err, t') \<Rightarrow> (([], False, Some err), i\<lparr>txn := Some t'\<rparr>)
           | (Inr None, t') \<Rightarrow> (([], False, None), i\<lparr>txn := Some t'\<rparr>)
           | (Inr (Some (DBytes val)), t') \<Rightarrow> ((val, True, None), i\<lparr>txn := Some t'\<rparr>)
           | (Inr (Some d), t') \<Rightarrow>
               (([], False,
                 Some (AssertionFailedf ''job info: expected value to be DBytes (was %T)''
                         [T d])), i\<lparr>txn := Some t'\<rparr>)))"

text \<open>\<^verbatim>\<open>write\<close> (named \<open>write_impl\<close>: \<open>write\<close> is reserved in Isabelle).\<close>

definition write_impl ::
  "InfoStorage \<Rightarrow> bytes \<Rightarrow> bytes \<Rightarrow> error option outcome \<times> InfoStorage" where
  "write_impl i infoKey val =
     (case txn i of
        None \<Rightarrow>
          (Return (Some (New ''cannot write to the job info table without an associated txn'')),
           i)
      | Some t0 \<Rightarrow>
          (case (if Session (j i) \<noteq> None then checkClaimSession (j i) t0
                 else (Return None,
                       t0\<lparr>vlog := vlog t0 @
                         [VInfof 1 ''job %d: writing to the system.job_info with no session ID''
                            [D (ID (j i))]]\<rparr>)) of
             (Panic, t1) \<Rightarrow> (Panic, i\<lparr>txn := Some t1\<rparr>)
           | (Return (Some err), t1) \<Rightarrow> (Return (Some err), i\<lparr>txn := Some t1\<rparr>)
           | (Return None, t1) \<Rightarrow>
               (case exec_delete t1 (ID (j i)) infoKey of
                  (Some err, t2) \<Rightarrow> (Return (Some err), i\<lparr>txn := Some t2\<rparr>)
                | (None, t2) \<Rightarrow>
                    (case exec_insert t2 (ID (j i)) infoKey val of
                       (err, t3) \<Rightarrow> (Return err, i\<lparr>txn := Some t3\<rparr>)))))"

text \<open>
  The visitor \<^verbatim>\<open>fn func(infoKey, value []byte) error\<close> is a closure: it may keep state of
  its own, passed here as \<open>'s\<close>.
\<close>

type_synonym 's visitor = "'s \<Rightarrow> bytes \<Rightarrow> bytes \<Rightarrow> error option \<times> 's"

text \<open>
  The \<^verbatim>\<open>for\<close> loop of \<^verbatim>\<open>iterate\<close>, from one \<^verbatim>\<open>rows.Next\<close> to the next, with \<open>prevKey\<close> and the
  visitor's state. It gives what the function body returns (before the deferred
  \<^verbatim>\<open>Close\<close>), the cursor and the visitor's state.
\<close>

function iterate_loop ::
  "'s visitor \<Rightarrow> bytes \<Rightarrow> Rows \<Rightarrow> 's \<Rightarrow> error option \<times> Rows \<times> 's" where
  "iterate_loop fn prevKey rows s =
     (case Next rows of
        ((ok, err), rows') \<Rightarrow>
          if \<not> ok then (err, rows', s)
          else if err \<noteq> None then (err, rows', s)
          else
            (case Cur rows' of
               (DBytes infoKey, valcol) \<Rightarrow>
                 if infoKey = prevKey then iterate_loop fn prevKey rows' s
                 else
                   (case valcol of
                      DBytes val \<Rightarrow>
                        (case fn s infoKey val of
                           (Some e, s') \<Rightarrow> (Some e, rows', s')
                         | (None, s') \<Rightarrow> iterate_loop fn infoKey rows' s')
                    | _ \<Rightarrow>
                        (Some (AssertionFailedf
                                 ''job info: expected value to be DBytes (was %T)'' [T valcol]),
                         rows', s))
             | (keycol, _) \<Rightarrow>
                 (Some (AssertionFailedf
                          ''job info: expected info_key to be DBytes (was %T)'' [T keycol]),
                  rows', s)))"
  by pat_completeness auto
termination
  by (relation "measure (\<lambda>(fn, prevKey, rows, s). length (remaining rows))")
     (auto simp: Next_def split: option.splits list.splits)

declare iterate_loop.simps [simp del]

text \<open>The cursor after a \<^verbatim>\<open>Next\<close> that served the first of its remaining rows.\<close>

definition advance :: "Rows \<Rightarrow> Rows" where
  "advance c =
     c\<lparr>remaining := tl (remaining c), cur := hd (remaining c), served := Suc (served c)\<rparr>"

text \<open>
  \<^verbatim>\<open>iterate\<close>: the nil check, the query, the loop, and the deferred
  \<^verbatim>\<open>retErr = errors.CombineErrors(retErr, it.Close())\<close>, which runs on every return after
  the cursor was opened. Besides the error it gives the visitor's state, the handle and
  the cursor as the call leaves it (\<open>None\<close> when none was opened).
\<close>

definition iterate ::
  "InfoStorage \<Rightarrow> bytes \<Rightarrow> 's visitor \<Rightarrow> 's \<Rightarrow> error option \<times> 's \<times> InfoStorage \<times> Rows option" where
  "iterate i infoPrefix fn s =
     (case txn i of
        None \<Rightarrow>
          (Some (New ''cannot iterate over the job info table without an associated txn''),
           s, i, None)
      | Some t \<Rightarrow>
          (case query_job_info_iter t (ID (j i)) infoPrefix of
             (Inl err, t') \<Rightarrow> (Some err, s, i\<lparr>txn := Some t'\<rparr>, None)
           | (Inr rows, t') \<Rightarrow>
               (case iterate_loop fn [] rows s of
                  (retErr, rows', s') \<Rightarrow>
                    (case Close rows' of
                       (closeErr, rows'') \<Rightarrow>
                         (CombineErrors retErr closeErr, s', i\<lparr>txn := Some t'\<rparr>,
                          Some rows'')))))"

text \<open>The exported methods delegate.\<close>

definition Get :: "InfoStorage \<Rightarrow> bytes \<Rightarrow> (bytes \<times> bool \<times> error option) \<times> InfoStorage" where
  "Get i infoKey = get i infoKey"

definition Write :: "InfoStorage \<Rightarrow> bytes \<Rightarrow> bytes \<Rightarrow> error option outcome \<times> InfoStorage" where
  "Write i infoKey val = write_impl i infoKey val"

definition Iterate ::
  "InfoStorage \<Rightarrow> bytes \<Rightarrow> 's visitor \<Rightarrow> 's \<Rightarrow> error option \<times> 's \<times> InfoStorage \<times> Rows option" where
  "Iterate i infoPrefix fn s = iterate i infoPrefix fn s"

text \<open>
  Observing the visitor: \<open>traced fn\<close> behaves as \<open>fn\<close> and also appends every call, with
  the key, the value and the error it returned, to a trace kept beside \<open>fn\<close>'s own
  state. \<open>replay\<close> applies \<open>fn\<close> to the calls of a trace in order.
\<close>

type_synonym visit = "bytes \<times> bytes \<times> error option"

definition traced :: "'s visitor \<Rightarrow> ('s \<times> visit list) visitor" where
  "traced fn = (\<lambda>(s, tr) k v. case fn s k v of (e, s') \<Rightarrow> (e, (s', tr @ [(k, v, e)])))"

fun replay :: "'s visitor \<Rightarrow> 's \<Rightarrow> visit list \<Rightarrow> 's" where
  "replay fn s [] = s"
| "replay fn s ((k, v, e) # calls) = replay fn (snd (fn s k v)) calls"

text \<open>
  \<open>is_newest rs jid k v\<close>: among the rows \<open>rs\<close>, a row of job \<open>jid\<close> and key \<open>k\<close> holds
  the bytes \<open>v\<close> and no row of that job and key was written later.
\<close>

definition is_newest :: "info_row list \<Rightarrow> JobID \<Rightarrow> bytes \<Rightarrow> bytes \<Rightarrow> bool" where
  "is_newest rs jid k v \<longleftrightarrow>
     (\<exists>r\<in>set rs. key_match jid k r \<and> row_value r = DBytes v \<and>
        (\<forall>r'\<in>set rs. key_match jid k r' \<longrightarrow> row_written r' \<le> row_written r))"

text \<open>
  A sequence of writes to one key, each made under the transaction timestamp paired with
  its value, stopping at the first write that does not succeed.
\<close>

definition at_time :: "int \<Rightarrow> InfoStorage \<Rightarrow> InfoStorage" where
  "at_time ts i = i\<lparr>txn := map_option (\<lambda>t. t\<lparr>now := ts\<rparr>) (txn i)\<rparr>"

fun Write_seq ::
  "InfoStorage \<Rightarrow> bytes \<Rightarrow> (int \<times> bytes) list \<Rightarrow> error option outcome \<times> InfoStorage" where
  "Write_seq i k [] = (Return None, i)"
| "Write_seq i k ((ts, v) # rest) =
     (case Write (at_time ts i) k v of
        (Return None, i') \<Rightarrow> Write_seq i' k rest
      | failed \<Rightarrow> failed)"

subsection \<open>Legacy keys\<close>

definition legacyPayloadKey :: string where
  "legacyPayloadKey = ''legacy_payload''"

definition legacyProgressKey :: string where
  "legacyProgressKey = ''legacy_progress''"

definition GetLegacyPayloadKey :: bytes where
  "GetLegacyPayloadKey = legacyPayloadKey"

definition GetLegacyProgressKey :: bytes where
  "GetLegacyProgressKey = legacyProgressKey"

definition GetLegacyPayload :: "InfoStorage \<Rightarrow> (bytes \<times> bool \<times> error option) \<times> InfoStorage" where
  "GetLegacyPayload i = Get i legacyPayloadKey"

definition WriteLegacyPayload :: "InfoStorage \<Rightarrow> bytes \<Rightarrow> error option outcome \<times> InfoStorage" where
  "WriteLegacyPayload i payload = Write i legacyPayloadKey payload"

definition GetLegacyProgress :: "InfoStorage \<Rightarrow> (bytes \<times> bool \<times> error option) \<times> InfoStorage" where
  "GetLegacyProgress i = Get i legacyProgressKey"

definition WriteLegacyProgress :: "InfoStorage \<Rightarrow> bytes \<Rightarrow> error option outcome \<times> InfoStorage" where
  "WriteLegacyProgress i progress = Write i legacyProgressKey progress"

subsection \<open>Example states\<close>

text \<open>
  Job 7 claimed by session \<open>s1\<close>, with an empty info table and a store that never fails;
  the handle of the claiming session, of another session, and of a job object without a
  session.
\<close>

definition ex_txn :: Txn where
  "ex_txn = \<lparr>jobs = [(7, DBytes ''s1'')], job_info = [], now = 100, stmts = [], faults = [],
              next_faults = [], close_fault = None, vlog = []\<rparr>"

definition ex_owner :: InfoStorage where
  "ex_owner = \<lparr>j = \<lparr>ID = 7, Session = Some ''s1''\<rparr>, txn = Some ex_txn\<rparr>"

definition ex_stale :: InfoStorage where
  "ex_stale = \<lparr>j = \<lparr>ID = 7, Session = Some ''s2''\<rparr>, txn = Some ex_txn\<rparr>"

definition ex_unclaimed :: InfoStorage where
  "ex_unclaimed = \<lparr>j = \<lparr>ID = 7, Session = None\<rparr>, txn = Some ex_txn\<rparr>"

text \<open>The same job with a row whose value column is NULL.\<close>

definition ex_null_txn :: Txn where
  "ex_null_txn = ex_txn\<lparr>job_info :=
     [\<lparr>row_job_id = 7, row_info_key = ''bad'', row_written = 50, row_value = DNull\<rparr>,
      \<lparr>row_job_id = 7, row_info_key = ''ok'', row_written = 60, row_value = DBytes ''x''\<rparr>]\<rparr>"

definition ex_null :: InfoStorage where
  "ex_null = \<lparr>j = \<lparr>ID = 7, Session = Some ''s1''\<rparr>, txn = Some ex_null_txn\<rparr>"

text \<open>The same job whose stored claim has been cleared to NULL.\<close>

definition ex_cleared :: InfoStorage where
  "ex_cleared = \<lparr>j = \<lparr>ID = 7, Session = Some ''s1''\<rparr>,
                  txn = Some (ex_txn\<lparr>jobs := [(7, DNull)]\<rparr>)\<rparr>"



text \<open>
  Job 7 with an append log: two revisions of each of \<open>a/1\<close>, \<open>a/2\<close> and \<open>b/1\<close>, in no
  particular table order, and a row of another job.
\<close>

definition ex_log_txn :: Txn where
  "ex_log_txn = ex_txn\<lparr>job_info :=
     [\<lparr>row_job_id = 7, row_info_key = ''b/1'', row_written = 10, row_value = DBytes ''old3''\<rparr>,
      \<lparr>row_job_id = 7, row_info_key = ''a/2'', row_written = 20, row_value = DBytes ''new2''\<rparr>,
      \<lparr>row_job_id = 7, row_info_key = ''a/1'', row_written = 10, row_value = DBytes ''old1''\<rparr>,
      \<lparr>row_job_id = 8, row_info_key = ''a/1'', row_written = 30, row_value = DBytes ''other''\<rparr>,
      \<lparr>row_job_id = 7, row_info_key = ''a/1'', row_written = 20, row_value = DBytes ''new1''\<rparr>,
      \<lparr>row_job_id = 7, row_info_key = ''b/1'', row_written = 20, row_value = DBytes ''new3''\<rparr>,
      \<lparr>row_job_id = 7, row_info_key = ''a/2'', row_written = 10, row_value = DBytes ''old2''\<rparr>]\<rparr>"

definition ex_log :: InfoStorage where
  "ex_log = \<lparr>j = \<lparr>ID = 7, Session = Some ''s1''\<rparr>, txn = Some ex_log_txn\<rparr>"

text \<open>Job 7 with one record under the empty key and one under \<open>a/1\<close>.\<close>

definition ex_empty_txn :: Txn where
  "ex_empty_txn = ex_txn\<lparr>job_info :=
     [\<lparr>row_job_id = 7, row_info_key = ''a/1'', row_written = 10, row_value = DBytes ''v1''\<rparr>,
      \<lparr>row_job_id = 7, row_info_key = [], row_written = 20, row_value = DBytes ''v0''\<rparr>]\<rparr>"

definition ex_empty :: InfoStorage where
  "ex_empty = \<lparr>j = \<lparr>ID = 7, Session = Some ''s1''\<rparr>, txn = Some ex_empty_txn\<rparr>"

text \<open>
  Two visitors that count their calls: one never fails, one fails on the key \<open>a/2\<close>.
\<close>

definition count_visits :: "nat visitor" where
  "count_visits n k v = (None, Suc n)"

definition fail_on_a2 :: "nat visitor" where
  "fail_on_a2 n k v = (if k = ''a/2'' then Some (New ''boom'') else None, Suc n)"

section \<open>Properties\<close>

subsection \<open>Statements, point reads and writes\<close>

lemma select_value_single:
  "filter (key_match jid k) rs = [r] \<Longrightarrow> select_value rs jid k = Some (row_value r)"
  by (simp add: select_value_def)

lemma select_value_none:
  "filter (key_match jid k) rs = [] \<Longrightarrow> select_value rs jid k = None"
  by (simp add: select_value_def)

text \<open>A row written strictly later than every other row of its key is the one selected.\<close>

lemma select_value_unique_newest:
  assumes "r \<in> set rs" and "key_match jid k r"
    and "\<forall>r'\<in>set rs. key_match jid k r' \<and> r' \<noteq> r \<longrightarrow> row_written r' < row_written r"
  shows "select_value rs jid k = Some (row_value r)"
proof -
  let ?xs = "filter (key_match jid k) rs"
  let ?ys = "sort_key (\<lambda>r. - row_written r) ?xs"
  have rin: "r \<in> set ?ys" using assms(1,2) by simp
  then obtain y ys' where ys: "?ys = y # ys'" by (cases ?ys) auto
  have "sorted (map (\<lambda>r. - row_written r) ?ys)" by (rule sorted_sort_key)
  with ys rin have le: "row_written r \<le> row_written y" by auto
  have "y \<in> set ?ys" using ys by simp
  then have yin: "y \<in> set rs" "key_match jid k y" by simp_all
  have "y = r"
  proof (rule ccontr)
    assume "y \<noteq> r"
    with assms(3) yin have "row_written y < row_written r" by blast
    with le show False by simp
  qed
  with ys show ?thesis by (simp add: select_value_def)
qed

text \<open>A write that returns nil has replaced the rows of its key by one new row.\<close>

lemma write_impl_success:
  assumes "write_impl i k v = (Return None, i')"
  shows "\<exists>t t'. txn i = Some t \<and> txn i' = Some t' \<and> j i' = j i \<and>
           job_info t' = filter (\<lambda>r. \<not> key_match (ID (j i)) k r) (job_info t) @
              [\<lparr>row_job_id = ID (j i), row_info_key = k, row_written = now t,
                row_value = DBytes v\<rparr>]"
  using assms
  by (auto simp: write_impl_def checkClaimSession_def query_claim_session_def issue_def
        exec_delete_def exec_insert_def key_match_def
      split: option.splits if_splits prod.splits outcome.splits sum.splits Datum.splits)

lemma get_found:
  assumes "txn i = Some t" "map_of (faults t) (length (stmts t)) = None"
    "select_value (job_info t) (ID (j i)) k = Some (DBytes v)"
  shows "fst (get i k) = (v, True, None)"
  using assms by (simp add: get_def query_job_info_get_def issue_def)

lemma Write_seq_last:
  "Write_seq i k (tvs @ [(ts, v)]) = (Return None, i') \<Longrightarrow>
     \<exists>i1. Write (at_time ts i1) k v = (Return None, i')"
proof (induction tvs arbitrary: i)
  case Nil
  then show ?case by (auto split: prod.splits outcome.splits option.splits)
next
  case (Cons a tvs)
  obtain ts0 v0 where a: "a = (ts0, v0)" by (cases a)
  from Cons.prems a show ?case
    by (auto split: prod.splits outcome.splits option.splits dest: Cons.IH)
qed

lemma write_then_get:
  assumes "write_impl i k v = (Return None, i')" and "txn i' = Some t'"
    and "map_of (faults t') (length (stmts t')) = None"
  shows "fst (get i' k) = (v, True, None)"
proof -
  from write_impl_success [OF assms(1)] obtain t :: Txn and t1 :: Txn where
    t: "txn i' = Some t1" "j i' = j i"
      "job_info t1 = filter (\<lambda>r. \<not> key_match (ID (j i)) k r) (job_info t) @
         [\<lparr>row_job_id = ID (j i), row_info_key = k, row_written = now t,
           row_value = DBytes v\<rparr>]"
    by (elim exE conjE)
  from t(1) assms(2) have eq: "t1 = t'" by simp
  let ?r = "\<lparr>row_job_id = ID (j i), row_info_key = k, row_written = now t,
           row_value = DBytes v\<rparr>"
  have f: "filter (key_match (ID (j i')) k) (job_info t') = [?r]"
    using t eq by (simp add: key_match_def)
  have "select_value (job_info t') (ID (j i')) k = Some (DBytes v)"
    using select_value_single [OF f] by simp
  then show ?thesis using get_found [OF assms(2) assms(3)] by simp
qed

text \<open>Whatever a write returns, the rows of other keys and other jobs are as before.\<close>

lemma write_impl_other_rows:
  assumes "txn i = Some t"
  shows "\<exists>t'. txn (snd (write_impl i k v)) = Some t' \<and> j (snd (write_impl i k v)) = j i \<and>
           filter (\<lambda>r. \<not> key_match (ID (j i)) k r) (job_info t') =
           filter (\<lambda>r. \<not> key_match (ID (j i)) k r) (job_info t)"
  using assms
  by (auto simp: write_impl_def checkClaimSession_def query_claim_session_def issue_def
        exec_delete_def exec_insert_def key_match_def
      split: option.splits prod.splits outcome.splits sum.splits Datum.splits)

lemma filter_other_key:
  assumes "filter (\<lambda>r. \<not> key_match jid k r) rs' = filter (\<lambda>r. \<not> key_match jid k r) rs"
    and "(jid', k') \<noteq> (jid, k)"
  shows "filter (key_match jid' k') rs' = filter (key_match jid' k') rs"
proof -
  have "filter (key_match jid' k') xs =
        filter (key_match jid' k') (filter (\<lambda>r. \<not> key_match jid k r) xs)" for xs
    using assms(2) by (induction xs) (auto simp: key_match_def)
  then show ?thesis using assms(1) by metis
qed

lemma select_value_other_key:
  assumes "filter (\<lambda>r. \<not> key_match jid k r) rs' = filter (\<lambda>r. \<not> key_match jid k r) rs"
    and "(jid', k') \<noteq> (jid, k)"
  shows "select_value rs' jid' k' = select_value rs jid' k'"
  using filter_other_key [OF assms] by (simp add: select_value_def)

text \<open>The claim check of a write made with a session.\<close>

lemma fenced_error:
  assumes "txn i = Some t" and "Session (j i) = Some sid"
    and "map_of (jobs t) (ID (j i)) = None \<or>
          (\<exists>b. map_of (jobs t) (ID (j i)) = Some (DBytes b) \<and> b \<noteq> sid)"
  shows "\<exists>e. write_impl i k v =
           (Return (Some e), i\<lparr>txn := Some (t\<lparr>stmts := stmts t @ [''check-claim-session'']\<rparr>)\<rparr>)"
  using assms
  by (auto simp: write_impl_def checkClaimSession_def query_claim_session_def issue_def
      split: option.splits)

lemma fenced_pass:
  assumes "txn i = Some t" and "Session (j i) = Some sid"
    and "map_of (jobs t) (ID (j i)) = Some (DBytes sid)"
    and "map_of (faults t) (length (stmts t)) = None"
  shows "checkClaimSession (j i) t =
           (Return None, t\<lparr>stmts := stmts t @ [''check-claim-session'']\<rparr>)"
    and "\<exists>t'. txn (snd (write_impl i k v)) = Some t' \<and>
               take 2 (drop (length (stmts t)) (stmts t')) =
                 [''check-claim-session'', ''write-job-info-delete'']"
  using assms
  by (auto simp: write_impl_def checkClaimSession_def query_claim_session_def issue_def
        exec_delete_def exec_insert_def
      split: option.splits)

text \<open>What a write returns and leaves behind once the claim check has passed.\<close>

lemma fenced_outcomes:
  assumes "txn i = Some t" and "Session (j i) = Some sid"
    and "map_of (jobs t) (ID (j i)) = Some (DBytes sid)"
    and "map_of (faults t) (length (stmts t)) = None"
  shows "map_of (faults t) (Suc (length (stmts t))) = None \<Longrightarrow>
         map_of (faults t) (Suc (Suc (length (stmts t)))) = None \<Longrightarrow>
         write_impl i k v =
           (Return None,
            i\<lparr>txn := Some (t\<lparr>
               job_info := filter (\<lambda>r. \<not> key_match (ID (j i)) k r) (job_info t) @
                 [\<lparr>row_job_id = ID (j i), row_info_key = k, row_written = now t,
                   row_value = DBytes v\<rparr>],
               stmts := stmts t @ [''check-claim-session'', ''write-job-info-delete'',
                                   ''write-job-info-insert'']\<rparr>)\<rparr>)"
    and "map_of (faults t) (Suc (length (stmts t))) = Some e \<Longrightarrow>
         write_impl i k v =
           (Return (Some e),
            i\<lparr>txn := Some (t\<lparr>stmts := stmts t @ [''check-claim-session'',
                                                   ''write-job-info-delete'']\<rparr>)\<rparr>)"
    and "map_of (faults t) (Suc (length (stmts t))) = None \<Longrightarrow>
         map_of (faults t) (Suc (Suc (length (stmts t)))) = Some e \<Longrightarrow>
         write_impl i k v =
           (Return (Some e),
            i\<lparr>txn := Some (t\<lparr>
               job_info := filter (\<lambda>r. \<not> key_match (ID (j i)) k r) (job_info t),
               stmts := stmts t @ [''check-claim-session'', ''write-job-info-delete'',
                                   ''write-job-info-insert'']\<rparr>)\<rparr>)"
  using assms
  by (simp_all add: write_impl_def checkClaimSession_def query_claim_session_def issue_def
        exec_delete_def exec_insert_def)

subsection \<open>C1: latest wins\<close>

text \<open>
  Claim C1. After any sequence of writes to one key of one job that all succeed (a single
  write included), whatever the table held before and whatever the timestamps are, exactly
  one row exists for \<open>(jobID, infoKey)\<close>, it holds the last value written, and a following
  \<open>Get\<close> whose query the store does not fail returns that value with \<open>found = true\<close> and
  no error.
\<close>

theorem latest_wins:
  assumes "Write_seq i k (tvs @ [(ts, v)]) = (Return None, i')"
  shows "\<exists>t' r. txn i' = Some t' \<and>
           filter (key_match (ID (j i')) k) (job_info t') = [r] \<and> row_value r = DBytes v \<and>
           (map_of (faults t') (length (stmts t')) = None \<longrightarrow>
              fst (Get i' k) = (v, True, None))"
proof -
  from Write_seq_last [OF assms] obtain i1 where
    w: "write_impl (at_time ts i1) k v = (Return None, i')" by (auto simp: Write_def)
  from write_impl_success [OF w] obtain t :: Txn and t' :: Txn where
    t: "txn i' = Some t'" "j i' = j (at_time ts i1)"
      "job_info t' = filter (\<lambda>r. \<not> key_match (ID (j (at_time ts i1))) k r) (job_info t) @
         [\<lparr>row_job_id = ID (j (at_time ts i1)), row_info_key = k, row_written = now t,
           row_value = DBytes v\<rparr>]"
    by (elim exE conjE)
  let ?r = "\<lparr>row_job_id = ID (j i'), row_info_key = k, row_written = now t,
           row_value = DBytes v\<rparr>"
  have f: "filter (key_match (ID (j i')) k) (job_info t') = [?r]"
    using t by (simp add: key_match_def)
  have "select_value (job_info t') (ID (j i')) k = Some (DBytes v)"
    using select_value_single [OF f] by simp
  then have "map_of (faults t') (length (stmts t')) = None \<longrightarrow> fst (Get i' k) = (v, True, None)"
    using get_found [OF t(1)] by (simp add: Get_def)
  with t(1) f show ?thesis by simp
qed

theorem latest_wins_witness:
  "fst (Write_seq ex_owner ''a/1'' ([(100, ''v1'')] @ [(100, ''v2'')])) = Return None \<and>
   fst (Get (snd (Write_seq ex_owner ''a/1'' ([(100, ''v1'')] @ [(100, ''v2'')]))) ''a/1'') =
     (''v2'', True, None)"
proof -
  let ?W = "Write_seq ex_owner ''a/1'' ([(100, ''v1'')] @ [(100, ''v2'')])"
  have h: "fst ?W = Return None" by code_simp
  then have h': "?W = (Return None, snd ?W)" by (metis prod.collapse)
  have nf: "map_option faults (txn (snd ?W)) = Some []" by code_simp
  from latest_wins [OF h'] obtain t' :: Txn where
    t': "txn (snd ?W) = Some t'"
      "map_of (faults t') (length (stmts t')) = None \<longrightarrow>
         fst (Get (snd ?W) ''a/1'') = (''v2'', True, None)"
    by (elim exE conjE)
  from nf t'(1) have "faults t' = []" by simp
  with t'(2) h show ?thesis by simp
qed

subsection \<open>C5: the results of Get\<close>

text \<open>
  Claim C5. With a transaction whose query does not fail: when no row exists for
  \<open>(jobID, infoKey)\<close>, \<open>Get\<close> returns \<open>found = false\<close> and no error; when the row the
  query selects has a value column that is not a byte string, \<open>Get\<close> returns the assertion
  error, which is not the nil error of the not-found result; and a row written strictly
  later than every other row of the key is the row selected.
\<close>

theorem get_taxonomy:
  assumes "txn i = Some t" and "map_of (faults t) (length (stmts t)) = None"
  shows "(filter (key_match (ID (j i)) k) (job_info t) = [] \<longrightarrow>
            fst (Get i k) = ([], False, None)) \<and>
         (\<forall>d. select_value (job_info t) (ID (j i)) k = Some d \<and> (\<forall>b. d \<noteq> DBytes b) \<longrightarrow>
            fst (Get i k) =
              ([], False,
               Some (AssertionFailedf ''job info: expected value to be DBytes (was %T)'' [T d]))) \<and>
         (\<forall>r\<in>set (job_info t).
            key_match (ID (j i)) k r \<and>
            (\<forall>r'\<in>set (job_info t).
               key_match (ID (j i)) k r' \<and> r' \<noteq> r \<longrightarrow> row_written r' < row_written r) \<and>
            (\<forall>b. row_value r \<noteq> DBytes b) \<longrightarrow>
            fst (Get i k) =
              ([], False,
               Some (AssertionFailedf ''job info: expected value to be DBytes (was %T)''
                       [T (row_value r)])))"
proof -
  have 1: "filter (key_match (ID (j i)) k) (job_info t) = [] \<longrightarrow>
            fst (Get i k) = ([], False, None)"
    using assms
    by (simp add: Get_def get_def query_job_info_get_def issue_def select_value_none)
  have 2: "fst (Get i k) =
              ([], False,
               Some (AssertionFailedf ''job info: expected value to be DBytes (was %T)'' [T d]))"
    if "select_value (job_info t) (ID (j i)) k = Some d" "\<forall>b. d \<noteq> DBytes b" for d
    using assms that
    by (cases d) (simp_all add: Get_def get_def query_job_info_get_def issue_def)
  have 3: "fst (Get i k) =
              ([], False,
               Some (AssertionFailedf ''job info: expected value to be DBytes (was %T)''
                       [T (row_value r)]))"
    if "r \<in> set (job_info t)" "key_match (ID (j i)) k r"
      "\<forall>r'\<in>set (job_info t).
               key_match (ID (j i)) k r' \<and> r' \<noteq> r \<longrightarrow> row_written r' < row_written r"
      "\<forall>b. row_value r \<noteq> DBytes b" for r
    using 2 [OF select_value_unique_newest [OF that(1,2,3)] that(4)] .
  from 1 2 3 show ?thesis by blast
qed

theorem get_taxonomy_witness:
  "fst (Get ex_null ''missing'') = ([], False, None) \<and>
   fst (Get ex_null ''bad'') =
     ([], False,
      Some (AssertionFailedf ''job info: expected value to be DBytes (was %T)'' [T DNull]))"
proof -
  have a: "txn ex_null = Some ex_null_txn" by (simp add: ex_null_def)
  have b: "map_of (faults ex_null_txn) (length (stmts ex_null_txn)) = None"
    by (simp add: ex_null_txn_def ex_txn_def)
  have c: "filter (key_match (ID (j ex_null)) ''missing'') (job_info ex_null_txn) = []"
    by code_simp
  have d: "select_value (job_info ex_null_txn) (ID (j ex_null)) ''bad'' = Some DNull"
    by code_simp
  from get_taxonomy [OF a b, of "''missing''"] c
  have 1: "fst (Get ex_null ''missing'') = ([], False, None)" by blast
  from get_taxonomy [OF a b, of "''bad''"] d
  have 2: "fst (Get ex_null ''bad'') =
     ([], False,
      Some (AssertionFailedf ''job info: expected value to be DBytes (was %T)'' [T DNull]))"
    by simp
  from 1 2 show ?thesis by simp
qed

subsection \<open>C2: claim fencing\<close>

text \<open>
  Claim C2. For a write through a handle whose job carries a session: when the job row is
  missing, or the stored claim is a byte string other than the caller's session, \<open>Write\<close>
  returns an error and the transaction is as before except that the claim query was
  issued: no delete, no insert, every row unchanged. When the stored claim equals the
  caller's session (and the store does not fail the claim query), the check returns nil
  and \<open>Write\<close> proceeds: it issues the delete and then the insert; when the store fails
  neither, it returns nil with the key's rows replaced by the one new row; when the store
  fails the delete, it returns that error with the rows unchanged and no insert issued;
  when the store fails the insert, it returns that error with the key's rows deleted.
\<close>

theorem claim_fencing:
  assumes "txn i = Some t" and "Session (j i) = Some sid"
  shows "(map_of (jobs t) (ID (j i)) = None \<or>
          (\<exists>b. map_of (jobs t) (ID (j i)) = Some (DBytes b) \<and> b \<noteq> sid) \<longrightarrow>
            (\<exists>e. Write i k v =
               (Return (Some e),
                i\<lparr>txn := Some (t\<lparr>stmts := stmts t @ [''check-claim-session'']\<rparr>)\<rparr>))) \<and>
         (map_of (jobs t) (ID (j i)) = Some (DBytes sid) \<and>
          map_of (faults t) (length (stmts t)) = None \<longrightarrow>
            fst (checkClaimSession (j i) t) = Return None \<and>
            (\<exists>t'. txn (snd (Write i k v)) = Some t' \<and>
               take 2 (drop (length (stmts t)) (stmts t')) =
                 [''check-claim-session'', ''write-job-info-delete'']) \<and>
            (map_of (faults t) (Suc (length (stmts t))) = None \<and>
             map_of (faults t) (Suc (Suc (length (stmts t)))) = None \<longrightarrow>
               Write i k v =
                 (Return None,
                  i\<lparr>txn := Some (t\<lparr>
                     job_info := filter (\<lambda>r. \<not> key_match (ID (j i)) k r) (job_info t) @
                       [\<lparr>row_job_id = ID (j i), row_info_key = k, row_written = now t,
                         row_value = DBytes v\<rparr>],
                     stmts := stmts t @ [''check-claim-session'', ''write-job-info-delete'',
                                         ''write-job-info-insert'']\<rparr>)\<rparr>)) \<and>
            (\<forall>e. map_of (faults t) (Suc (length (stmts t))) = Some e \<longrightarrow>
               Write i k v =
                 (Return (Some e),
                  i\<lparr>txn := Some (t\<lparr>stmts := stmts t @ [''check-claim-session'',
                                                         ''write-job-info-delete'']\<rparr>)\<rparr>)) \<and>
            (\<forall>e. map_of (faults t) (Suc (length (stmts t))) = None \<and>
                 map_of (faults t) (Suc (Suc (length (stmts t)))) = Some e \<longrightarrow>
               Write i k v =
                 (Return (Some e),
                  i\<lparr>txn := Some (t\<lparr>
                     job_info := filter (\<lambda>r. \<not> key_match (ID (j i)) k r) (job_info t),
                     stmts := stmts t @ [''check-claim-session'', ''write-job-info-delete'',
                                         ''write-job-info-insert'']\<rparr>)\<rparr>)))"
proof (intro conjI impI)
  assume "map_of (jobs t) (ID (j i)) = None \<or>
          (\<exists>b. map_of (jobs t) (ID (j i)) = Some (DBytes b) \<and> b \<noteq> sid)"
  from fenced_error [OF assms this]
  show "\<exists>e. Write i k v =
               (Return (Some e),
                i\<lparr>txn := Some (t\<lparr>stmts := stmts t @ [''check-claim-session'']\<rparr>)\<rparr>)"
    by (simp add: Write_def)
next
  assume a: "map_of (jobs t) (ID (j i)) = Some (DBytes sid) \<and>
          map_of (faults t) (length (stmts t)) = None"
  then have a1: "map_of (jobs t) (ID (j i)) = Some (DBytes sid)"
    and a2: "map_of (faults t) (length (stmts t)) = None" by simp_all
  note out = fenced_outcomes [OF assms a1 a2, where k = k and v = v]
  from fenced_pass(1) [OF assms a1 a2]
  show "fst (checkClaimSession (j i) t) = Return None" by simp
  from fenced_pass(2) [OF assms a1 a2]
  show "\<exists>t'. txn (snd (Write i k v)) = Some t' \<and>
               take 2 (drop (length (stmts t)) (stmts t')) =
                 [''check-claim-session'', ''write-job-info-delete'']"
    by (simp add: Write_def)
  show "\<forall>e. map_of (faults t) (Suc (length (stmts t))) = Some e \<longrightarrow>
               Write i k v =
                 (Return (Some e),
                  i\<lparr>txn := Some (t\<lparr>stmts := stmts t @ [''check-claim-session'',
                                                         ''write-job-info-delete'']\<rparr>)\<rparr>)"
    using out(2) by (simp add: Write_def)
  show "\<forall>e. map_of (faults t) (Suc (length (stmts t))) = None \<and>
                 map_of (faults t) (Suc (Suc (length (stmts t)))) = Some e \<longrightarrow>
               Write i k v =
                 (Return (Some e),
                  i\<lparr>txn := Some (t\<lparr>
                     job_info := filter (\<lambda>r. \<not> key_match (ID (j i)) k r) (job_info t),
                     stmts := stmts t @ [''check-claim-session'', ''write-job-info-delete'',
                                         ''write-job-info-insert'']\<rparr>)\<rparr>)"
    using out(3) by (simp add: Write_def)
  assume "map_of (faults t) (Suc (length (stmts t))) = None \<and>
             map_of (faults t) (Suc (Suc (length (stmts t)))) = None"
  then show "Write i k v =
                 (Return None,
                  i\<lparr>txn := Some (t\<lparr>
                     job_info := filter (\<lambda>r. \<not> key_match (ID (j i)) k r) (job_info t) @
                       [\<lparr>row_job_id = ID (j i), row_info_key = k, row_written = now t,
                         row_value = DBytes v\<rparr>],
                     stmts := stmts t @ [''check-claim-session'', ''write-job-info-delete'',
                                         ''write-job-info-insert'']\<rparr>)\<rparr>)"
    using out(1) by (simp add: Write_def)
qed

theorem claim_fencing_witness:
  "(\<exists>e. Write ex_stale ''a/1'' ''v'' =
      (Return (Some e),
       ex_stale\<lparr>txn := Some (ex_txn\<lparr>stmts := stmts ex_txn @ [''check-claim-session'']\<rparr>)\<rparr>)) \<and>
   fst (checkClaimSession (j ex_owner) ex_txn) = Return None \<and>
   (\<exists>t'. txn (snd (Write ex_owner ''a/1'' ''v'')) = Some t' \<and>
      take 2 (drop (length (stmts ex_txn)) (stmts t')) =
        [''check-claim-session'', ''write-job-info-delete'']) \<and>
   Write ex_owner ''a/1'' ''v'' =
     (Return None,
      ex_owner\<lparr>txn := Some (ex_txn\<lparr>
         job_info := filter (\<lambda>r. \<not> key_match (ID (j ex_owner)) ''a/1'' r) (job_info ex_txn) @
           [\<lparr>row_job_id = ID (j ex_owner), row_info_key = ''a/1'', row_written = now ex_txn,
             row_value = DBytes ''v''\<rparr>],
         stmts := stmts ex_txn @ [''check-claim-session'', ''write-job-info-delete'',
                                  ''write-job-info-insert'']\<rparr>)\<rparr>)"
proof -
  have s1: "txn ex_stale = Some ex_txn" "Session (j ex_stale) = Some ''s2''"
    by (simp_all add: ex_stale_def)
  have s2: "map_of (jobs ex_txn) (ID (j ex_stale)) = None \<or>
          (\<exists>b. map_of (jobs ex_txn) (ID (j ex_stale)) = Some (DBytes b) \<and> b \<noteq> ''s2'')"
    by (simp add: ex_stale_def ex_txn_def)
  have o1: "txn ex_owner = Some ex_txn" "Session (j ex_owner) = Some ''s1''"
    by (simp_all add: ex_owner_def)
  have o2: "map_of (jobs ex_txn) (ID (j ex_owner)) = Some (DBytes ''s1'') \<and>
          map_of (faults ex_txn) (length (stmts ex_txn)) = None"
    by (simp add: ex_owner_def ex_txn_def)
  have o3: "map_of (faults ex_txn) (Suc (length (stmts ex_txn))) = None \<and>
          map_of (faults ex_txn) (Suc (Suc (length (stmts ex_txn)))) = None"
    by (simp add: ex_txn_def)
  from claim_fencing [OF s1, of "''a/1''" "''v''"] s2
    claim_fencing [OF o1, of "''a/1''" "''v''"] o2 o3
  show ?thesis by blast
qed

subsection \<open>C4: writes of a job without a session\<close>

text \<open>
  Claim C4. For a write through a handle whose job has no session: no claim query is
  issued (the first statement is the delete), the note is passed to \<^verbatim>\<open>log.VInfof\<close> at
  verbosity 1, the outcome does not depend on what \<^verbatim>\<open>system.jobs\<close> holds, and when the store
  fails neither statement the write returns nil with the key's rows replaced by the new
  row.
\<close>

theorem unclaimed_bypass:
  assumes "txn i = Some t" and "Session (j i) = None"
  shows "\<exists>t'. txn (snd (Write i k v)) = Some t' \<and>
           ''check-claim-session'' \<notin> set (drop (length (stmts t)) (stmts t')) \<and>
           take 1 (drop (length (stmts t)) (stmts t')) = [''write-job-info-delete''] \<and>
           vlog t' = vlog t @
             [VInfof 1 ''job %d: writing to the system.job_info with no session ID''
                [D (ID (j i))]] \<and>
           (\<forall>js. fst (Write (i\<lparr>txn := Some (t\<lparr>jobs := js\<rparr>)\<rparr>) k v) = fst (Write i k v)) \<and>
           (map_of (faults t) (length (stmts t)) = None \<and>
            map_of (faults t) (Suc (length (stmts t))) = None \<longrightarrow>
              fst (Write i k v) = Return None \<and>
              job_info t' = filter (\<lambda>r. \<not> key_match (ID (j i)) k r) (job_info t) @
                [\<lparr>row_job_id = ID (j i), row_info_key = k, row_written = now t,
                  row_value = DBytes v\<rparr>])"
  using assms
  by (auto simp: Write_def write_impl_def issue_def exec_delete_def exec_insert_def
      split: option.splits prod.splits)

theorem unclaimed_bypass_witness:
  "fst (Write ex_unclaimed ''a/1'' ''v'') = Return None \<and>
   (\<exists>t'. txn (snd (Write ex_unclaimed ''a/1'' ''v'')) = Some t' \<and>
      ''check-claim-session'' \<notin> set (drop (length (stmts ex_txn)) (stmts t')) \<and>
      vlog t' = vlog ex_txn @
        [VInfof 1 ''job %d: writing to the system.job_info with no session ID''
           [D (ID (j ex_unclaimed))]])"
proof -
  have u: "txn ex_unclaimed = Some ex_txn" "Session (j ex_unclaimed) = None"
    by (simp_all add: ex_unclaimed_def)
  have nf: "map_of (faults ex_txn) (length (stmts ex_txn)) = None \<and>
            map_of (faults ex_txn) (Suc (length (stmts ex_txn))) = None"
    by (simp add: ex_txn_def)
  from unclaimed_bypass [OF u, of "''a/1''" "''v''"] nf show ?thesis by blast
qed

subsection \<open>C9: the claim check is partial\<close>

text \<open>
  Claim C9. For a write through a handle whose job carries a session, when the job row
  exists and its claim column is not a byte string (NULL, for one) and the store does not
  fail the claim query, the check does not return: the unchecked conversion panics, so the
  write returns neither an error nor nil.
\<close>

theorem claim_check_partial:
  assumes "txn i = Some t" and "Session (j i) = Some sid"
    and "map_of (faults t) (length (stmts t)) = None"
    and "map_of (jobs t) (ID (j i)) = Some d" and "\<forall>b. d \<noteq> DBytes b"
  shows "fst (checkClaimSession (j i) t) = Panic \<and> fst (Write i k v) = Panic \<and>
         (\<forall>r. fst (Write i k v) \<noteq> Return r)"
  using assms
  by (auto simp: Write_def write_impl_def checkClaimSession_def query_claim_session_def issue_def
      split: option.splits prod.splits Datum.splits)

theorem claim_check_partial_witness:
  "fst (checkClaimSession (j ex_cleared) (ex_txn\<lparr>jobs := [(7, DNull)]\<rparr>)) = Panic \<and>
   fst (Write ex_cleared ''a/1'' ''v'') = Panic"
proof -
  have a: "txn ex_cleared = Some (ex_txn\<lparr>jobs := [(7, DNull)]\<rparr>)"
    "Session (j ex_cleared) = Some ''s1''"
    by (simp_all add: ex_cleared_def)
  have b: "map_of (faults (ex_txn\<lparr>jobs := [(7, DNull)]\<rparr>))
             (length (stmts (ex_txn\<lparr>jobs := [(7, DNull)]\<rparr>))) = None"
    by (simp add: ex_txn_def)
  have c: "map_of (jobs (ex_txn\<lparr>jobs := [(7, DNull)]\<rparr>)) (ID (j ex_cleared)) = Some DNull"
    by (simp add: ex_cleared_def)
  have d: "\<forall>b. DNull \<noteq> DBytes b" by simp
  from claim_check_partial [OF a b c d, of "''a/1''" "''v''"] show ?thesis by simp
qed

subsection \<open>C8: the legacy adapters\<close>

text \<open>
  Claim C8. The four adapters are \<open>Write\<close> and \<open>Get\<close> at the fixed keys
  \<open>legacy_payload\<close> and \<open>legacy_progress\<close>, which differ. A successful
  \<open>WriteLegacyPayload p\<close> followed by \<open>GetLegacyPayload\<close> (its query not failed by the
  store) returns \<open>(p, true)\<close> with no error, and likewise for progress. Whatever a legacy
  write returns, the rows of every other \<open>(job, key)\<close> pair, and so what a point read of
  that pair selects, are as before; this covers the other legacy key.
\<close>

theorem legacy_adapters:
  "legacyPayloadKey \<noteq> legacyProgressKey \<and>
   WriteLegacyPayload i p = Write i ''legacy_payload'' p \<and>
   GetLegacyPayload i = Get i ''legacy_payload'' \<and>
   WriteLegacyProgress i p = Write i ''legacy_progress'' p \<and>
   GetLegacyProgress i = Get i ''legacy_progress'' \<and>
   (\<forall>i' t'. WriteLegacyPayload i p = (Return None, i') \<and> txn i' = Some t' \<and>
        map_of (faults t') (length (stmts t')) = None \<longrightarrow>
        fst (GetLegacyPayload i') = (p, True, None)) \<and>
   (\<forall>i' t'. WriteLegacyProgress i p = (Return None, i') \<and> txn i' = Some t' \<and>
        map_of (faults t') (length (stmts t')) = None \<longrightarrow>
        fst (GetLegacyProgress i') = (p, True, None)) \<and>
   (\<forall>t. txn i = Some t \<longrightarrow>
      (\<exists>t'. txn (snd (WriteLegacyPayload i p)) = Some t' \<and>
         (\<forall>jid k. (jid, k) \<noteq> (ID (j i), legacyPayloadKey) \<longrightarrow>
            filter (key_match jid k) (job_info t') = filter (key_match jid k) (job_info t) \<and>
            select_value (job_info t') jid k = select_value (job_info t) jid k)) \<and>
      (\<exists>t'. txn (snd (WriteLegacyProgress i p)) = Some t' \<and>
         (\<forall>jid k. (jid, k) \<noteq> (ID (j i), legacyProgressKey) \<longrightarrow>
            filter (key_match jid k) (job_info t') = filter (key_match jid k) (job_info t) \<and>
            select_value (job_info t') jid k = select_value (job_info t) jid k)))"
proof -
  have rt: "fst (Get i' k) = (v, True, None)"
    if "Write i k v = (Return None, i')" "txn i' = Some t'"
       "map_of (faults t') (length (stmts t')) = None" for i' t' k v
    using that by (simp add: Write_def Get_def write_then_get)
  have other: "\<exists>t'. txn (snd (Write i k v)) = Some t' \<and>
         (\<forall>jid k'. (jid, k') \<noteq> (ID (j i), k) \<longrightarrow>
            filter (key_match jid k') (job_info t') = filter (key_match jid k') (job_info t) \<and>
            select_value (job_info t') jid k' = select_value (job_info t) jid k')"
    if "txn i = Some t" for t k v
  proof -
    from write_impl_other_rows [OF that, of k v] obtain t' :: Txn where
      t': "txn (snd (write_impl i k v)) = Some t'"
        "filter (\<lambda>r. \<not> key_match (ID (j i)) k r) (job_info t') =
         filter (\<lambda>r. \<not> key_match (ID (j i)) k r) (job_info t)"
      by (elim exE conjE)
    show ?thesis
      using t'(1) filter_other_key [OF t'(2)] select_value_other_key [OF t'(2)]
      by (simp add: Write_def)
  qed
  have keys: "legacyPayloadKey \<noteq> legacyProgressKey"
    by (simp add: legacyPayloadKey_def legacyProgressKey_def)
  have deleg: "WriteLegacyPayload i p = Write i ''legacy_payload'' p"
    "GetLegacyPayload i = Get i ''legacy_payload''"
    "WriteLegacyProgress i p = Write i ''legacy_progress'' p"
    "GetLegacyProgress i = Get i ''legacy_progress''"
    by (simp_all add: WriteLegacyPayload_def GetLegacyPayload_def WriteLegacyProgress_def
          GetLegacyProgress_def legacyPayloadKey_def legacyProgressKey_def)
  have rt1: "\<forall>i' t'. WriteLegacyPayload i p = (Return None, i') \<and> txn i' = Some t' \<and>
        map_of (faults t') (length (stmts t')) = None \<longrightarrow>
        fst (GetLegacyPayload i') = (p, True, None)"
    using rt by (simp add: WriteLegacyPayload_def GetLegacyPayload_def)
  have rt2: "\<forall>i' t'. WriteLegacyProgress i p = (Return None, i') \<and> txn i' = Some t' \<and>
        map_of (faults t') (length (stmts t')) = None \<longrightarrow>
        fst (GetLegacyProgress i') = (p, True, None)"
    using rt by (simp add: WriteLegacyProgress_def GetLegacyProgress_def)
  have o1: "\<forall>t. txn i = Some t \<longrightarrow>
      (\<exists>t'. txn (snd (WriteLegacyPayload i p)) = Some t' \<and>
         (\<forall>jid k. (jid, k) \<noteq> (ID (j i), legacyPayloadKey) \<longrightarrow>
            filter (key_match jid k) (job_info t') = filter (key_match jid k) (job_info t) \<and>
            select_value (job_info t') jid k = select_value (job_info t) jid k))"
    using other [of _ legacyPayloadKey p] by (simp add: WriteLegacyPayload_def)
  have o2: "\<forall>t. txn i = Some t \<longrightarrow>
      (\<exists>t'. txn (snd (WriteLegacyProgress i p)) = Some t' \<and>
         (\<forall>jid k. (jid, k) \<noteq> (ID (j i), legacyProgressKey) \<longrightarrow>
            filter (key_match jid k) (job_info t') = filter (key_match jid k) (job_info t) \<and>
            select_value (job_info t') jid k = select_value (job_info t) jid k))"
    using other [of _ legacyProgressKey p] by (simp add: WriteLegacyProgress_def)
  from keys deleg rt1 rt2 o1 o2 show ?thesis by blast
qed

theorem legacy_adapters_witness:
  "fst (GetLegacyPayload (snd (WriteLegacyPayload ex_owner ''p1''))) = (''p1'', True, None) \<and>
   fst (GetLegacyProgress (snd (WriteLegacyProgress ex_owner ''g1''))) = (''g1'', True, None) \<and>
   (\<exists>t'. txn (snd (WriteLegacyPayload ex_owner ''p1'')) = Some t' \<and>
      select_value (job_info t') 7 legacyProgressKey =
      select_value (job_info ex_txn) 7 legacyProgressKey)"
proof -
  let ?W1 = "WriteLegacyPayload ex_owner ''p1''"
  let ?W2 = "WriteLegacyProgress ex_owner ''g1''"
  note L = legacy_adapters [of ex_owner "''p1''"]
  note M = legacy_adapters [of ex_owner "''g1''"]
  have w1: "?W1 = (Return None, snd ?W1)"
  proof -
    have "fst ?W1 = Return None" by code_simp
    then show ?thesis by (metis prod.collapse)
  qed
  have w2: "?W2 = (Return None, snd ?W2)"
  proof -
    have "fst ?W2 = Return None" by code_simp
    then show ?thesis by (metis prod.collapse)
  qed
  obtain t1 :: Txn where t1: "txn (snd ?W1) = Some t1" "faults t1 = []"
  proof -
    have "map_option faults (txn (snd ?W1)) = Some []" by code_simp
    then show ?thesis using that by auto
  qed
  obtain t2 :: Txn where t2: "txn (snd ?W2) = Some t2" "faults t2 = []"
  proof -
    have "map_option faults (txn (snd ?W2)) = Some []" by code_simp
    then show ?thesis using that by auto
  qed
  have a: "fst (GetLegacyPayload (snd ?W1)) = (''p1'', True, None)"
    using L w1 t1 by simp
  have b: "fst (GetLegacyProgress (snd ?W2)) = (''g1'', True, None)"
    using M w2 t2 by simp
  have e: "txn ex_owner = Some ex_txn" by (simp add: ex_owner_def)
  have ne: "(7 :: JobID, legacyProgressKey) \<noteq> (ID (j ex_owner), legacyPayloadKey)"
    by (simp add: legacyPayloadKey_def legacyProgressKey_def)
  have c: "\<exists>t'. txn (snd ?W1) = Some t' \<and>
      select_value (job_info t') 7 legacyProgressKey =
      select_value (job_info ex_txn) 7 legacyProgressKey"
    using L e ne by blast
  from a b c show ?thesis by blast
qed

subsection \<open>The loop, one \<^verbatim>\<open>Next\<close> at a time\<close>

lemma loop_fault:
  "map_of (rows_next_faults c) (served c) = Some err \<Longrightarrow>
   iterate_loop fn p c s = (Some err, c\<lparr>served := Suc (served c)\<rparr>, s)"
  by (subst iterate_loop.simps) (simp add: Next_def)

lemma loop_end:
  "map_of (rows_next_faults c) (served c) = None \<Longrightarrow> remaining c = [] \<Longrightarrow>
   iterate_loop fn p c s = (None, c\<lparr>served := Suc (served c)\<rparr>, s)"
  by (subst iterate_loop.simps) (simp add: Next_def)

lemma loop_skip:
  "map_of (rows_next_faults c) (served c) = None \<Longrightarrow> remaining c = (DBytes p, vc) # rest \<Longrightarrow>
   iterate_loop fn p c s = iterate_loop fn p (advance c) s"
  by (subst iterate_loop.simps) (simp add: Next_def Cur_def advance_def)

lemma loop_visit:
  "map_of (rows_next_faults c) (served c) = None \<Longrightarrow>
   remaining c = (DBytes k, DBytes v) # rest \<Longrightarrow> k \<noteq> p \<Longrightarrow>
   iterate_loop fn p c s =
     (case fn s k v of
        (Some e, s') \<Rightarrow> (Some e, advance c, s')
      | (None, s') \<Rightarrow> iterate_loop fn k (advance c) s')"
  by (subst iterate_loop.simps)
     (simp add: Next_def Cur_def advance_def split: prod.splits option.splits)

lemma loop_bad_value:
  "map_of (rows_next_faults c) (served c) = None \<Longrightarrow>
   remaining c = (DBytes k, vc) # rest \<Longrightarrow> k \<noteq> p \<Longrightarrow> \<forall>b. vc \<noteq> DBytes b \<Longrightarrow>
   iterate_loop fn p c s =
     (Some (AssertionFailedf ''job info: expected value to be DBytes (was %T)'' [T vc]),
      advance c, s)"
  by (subst iterate_loop.simps) (simp add: Next_def Cur_def advance_def split: Datum.splits)

lemma loop_bad_key:
  "map_of (rows_next_faults c) (served c) = None \<Longrightarrow>
   remaining c = (kc, vc) # rest \<Longrightarrow> \<forall>b. kc \<noteq> DBytes b \<Longrightarrow>
   iterate_loop fn p c s =
     (Some (AssertionFailedf ''job info: expected info_key to be DBytes (was %T)'' [T kc]),
      advance c, s)"
  by (subst iterate_loop.simps) (simp add: Next_def Cur_def advance_def split: Datum.splits)


lemma traced_apply:
  "traced fn (s, tr) k v = (fst (fn s k v), (snd (fn s k v), tr @ [(k, v, fst (fn s k v))]))"
  by (simp add: traced_def split: prod.splits)

lemma remaining_advance: "remaining c = x # xs \<Longrightarrow> remaining (advance c) = xs"
  by (simp add: advance_def)

lemma advance_fields:
  "rows_next_faults (advance c) = rows_next_faults c"
  "served (advance c) = Suc (served c)"
  "remaining c = x # xs \<Longrightarrow> Cur (advance c) = x"
  by (simp_all add: advance_def Cur_def)

text \<open>The loop's cases, as a rule for proofs about it.\<close>

lemma loop_cases [consumes 1, case_names fault finished skip bad_key bad_value failed visited]:
  assumes run: "iterate_loop fn p c s = (e, c', s')"
    and fault: "\<And>err. map_of (rows_next_faults c) (served c) = Some err \<Longrightarrow>
        e = Some err \<Longrightarrow> c' = c\<lparr>served := Suc (served c)\<rparr> \<Longrightarrow> s' = s \<Longrightarrow> P"
    and finished: "map_of (rows_next_faults c) (served c) = None \<Longrightarrow> remaining c = [] \<Longrightarrow>
        e = None \<Longrightarrow> c' = c\<lparr>served := Suc (served c)\<rparr> \<Longrightarrow> s' = s \<Longrightarrow> P"
    and skip: "\<And>vc rest. map_of (rows_next_faults c) (served c) = None \<Longrightarrow>
        remaining c = (DBytes p, vc) # rest \<Longrightarrow>
        iterate_loop fn p (advance c) s = (e, c', s') \<Longrightarrow> P"
    and bad_key: "\<And>kc vc rest. map_of (rows_next_faults c) (served c) = None \<Longrightarrow>
        remaining c = (kc, vc) # rest \<Longrightarrow> \<forall>b. kc \<noteq> DBytes b \<Longrightarrow>
        e = Some (AssertionFailedf ''job info: expected info_key to be DBytes (was %T)'' [T kc]) \<Longrightarrow>
        c' = advance c \<Longrightarrow> s' = s \<Longrightarrow> P"
    and bad_value: "\<And>k vc rest. map_of (rows_next_faults c) (served c) = None \<Longrightarrow>
        remaining c = (DBytes k, vc) # rest \<Longrightarrow> k \<noteq> p \<Longrightarrow> \<forall>b. vc \<noteq> DBytes b \<Longrightarrow>
        e = Some (AssertionFailedf ''job info: expected value to be DBytes (was %T)'' [T vc]) \<Longrightarrow>
        c' = advance c \<Longrightarrow> s' = s \<Longrightarrow> P"
    and failed: "\<And>k v rest x. map_of (rows_next_faults c) (served c) = None \<Longrightarrow>
        remaining c = (DBytes k, DBytes v) # rest \<Longrightarrow> k \<noteq> p \<Longrightarrow>
        fn s k v = (Some x, s') \<Longrightarrow> e = Some x \<Longrightarrow> c' = advance c \<Longrightarrow> P"
    and visited: "\<And>k v rest s1. map_of (rows_next_faults c) (served c) = None \<Longrightarrow>
        remaining c = (DBytes k, DBytes v) # rest \<Longrightarrow> k \<noteq> p \<Longrightarrow>
        fn s k v = (None, s1) \<Longrightarrow> iterate_loop fn k (advance c) s1 = (e, c', s') \<Longrightarrow> P"
  shows P
proof (cases "map_of (rows_next_faults c) (served c)")
  case (Some err)
  from run loop_fault [OF Some, of fn p s]
  have "e = Some err" "c' = c\<lparr>served := Suc (served c)\<rparr>" "s' = s" by simp_all
  then show P by (rule fault [OF Some])
next
  case None
  show P
  proof (cases "remaining c")
    case Nil
    from run loop_end [OF None Nil, of fn p s]
    have "e = None" "c' = c\<lparr>served := Suc (served c)\<rparr>" "s' = s" by simp_all
    then show P by (rule finished [OF None Nil])
  next
    case (Cons row rest)
    obtain kc vc where row: "row = (kc, vc)" by (cases row)
    show P
    proof (cases "\<exists>b. kc = DBytes b")
      case False
      then have nb: "\<forall>b. kc \<noteq> DBytes b" by simp
      from run loop_bad_key [OF None Cons [unfolded row] nb, of fn p s]
      have "e = Some (AssertionFailedf ''job info: expected info_key to be DBytes (was %T)'' [T kc])"
        "c' = advance c" "s' = s" by simp_all
      then show P by (rule bad_key [OF None Cons [unfolded row] nb])
    next
      case True
      then obtain k where k: "kc = DBytes k" by blast
      note rem = Cons [unfolded row k]
      show P
      proof (cases "k = p")
        case True
        from run loop_skip [OF None rem [unfolded True], of fn s]
        have "iterate_loop fn p (advance c) s = (e, c', s')" by simp
        then show P by (rule skip [OF None rem [unfolded True]])
      next
        case kp: False
        show P
        proof (cases "\<exists>b. vc = DBytes b")
          case False
          then have nb: "\<forall>b. vc \<noteq> DBytes b" by simp
          from run loop_bad_value [OF None rem kp nb, of fn s]
          have "e = Some (AssertionFailedf ''job info: expected value to be DBytes (was %T)'' [T vc])"
            "c' = advance c" "s' = s" by simp_all
          then show P by (rule bad_value [OF None rem kp nb])
        next
          case True
          then obtain v where v: "vc = DBytes v" by blast
          note rem' = rem [unfolded v]
          obtain r s1 where f: "fn s k v = (r, s1)" by (cases "fn s k v")
          show P
          proof (cases r)
            case None' : None
            from run loop_visit [OF None rem' kp, of fn s] f None'
            have "iterate_loop fn k (advance c) s1 = (e, c', s')" by simp
            from visited [OF None rem' kp f [unfolded None'] this] show P .
          next
            case (Some x)
            from run loop_visit [OF None rem' kp, of fn s] f Some
            have *: "e = Some x" "c' = advance c" "s1 = s'" by simp_all
            from f Some * have "fn s k v = (Some x, s')" by simp
            from failed [OF None rem' kp this *(1) *(2)] show P .
          qed
        qed
      qed
    qed
  qed
qed


subsection \<open>What the loop visits when the rows are in scan order\<close>

lemma is_newest_head:
  assumes "sorted (map scan_key (r # rs))" "row_job_id r = jid" "row_value r = DBytes v"
  shows "is_newest (r # rs) jid (row_info_key r) v"
  using assms by (auto simp: is_newest_def key_match_def scan_key_def)

lemma is_newest_tail:
  assumes "is_newest rs jid k v" "row_info_key r \<noteq> k"
  shows "is_newest (r # rs) jid k v"
  using assms by (auto simp: is_newest_def key_match_def)

lemma is_newest_lift:
  assumes "\<forall>x\<in>set new. q < fst x \<and> is_newest rs jid (fst x) (fst (snd x))"
    and "row_info_key r \<le> q"
  shows "\<forall>x\<in>set new. is_newest (r # rs) jid (fst x) (fst (snd x))"
proof
  fix x assume x: "x \<in> set new"
  with assms(1) have "q < fst x" and n: "is_newest rs jid (fst x) (fst (snd x))" by auto
  with assms(2) have "row_info_key r \<noteq> fst x" by auto
  with n show "is_newest (r # rs) jid (fst x) (fst (snd x))" by (rule is_newest_tail)
qed

lemma sorted_head_le:
  assumes "sorted (map scan_key (r # rs))"
  shows "\<forall>r'\<in>set rs. row_info_key r \<le> row_info_key r'"
  using assms by (auto simp: scan_key_def)

lemma loop_trace_sorted:
  assumes "iterate_loop (traced fn) p c (s, tr) = (e, c', (s', tr'))"
    and "remaining c = map scan_cols rs" and "sorted (map scan_key rs)"
    and "\<forall>r\<in>set rs. p \<le> row_info_key r" and "\<forall>r\<in>set rs. row_job_id r = jid"
  shows "\<exists>new. tr' = tr @ new \<and> sorted_wrt (<) (map fst new) \<and>
           (\<forall>x\<in>set new. p < fst x \<and> is_newest rs jid (fst x) (fst (snd x)))"
  using assms
proof (induction rs arbitrary: p c s tr)
  case Nil
  from Nil.prems(1) show ?case
    by (cases rule: loop_cases) (use Nil.prems(2) in auto)
next
  case (Cons r rs)
  note rem = Cons.prems(2)
  have srt: "sorted (map scan_key rs)" using Cons.prems(3) by simp
  have job: "\<forall>r\<in>set rs. row_job_id r = jid" using Cons.prems(5) by simp
  from Cons.prems(1) show ?case
  proof (cases rule: loop_cases)
    case (fault err)
    then show ?thesis by simp
  next
    case finished
    then show ?thesis by simp
  next
    case (skip vc rest)
    from skip(2) rem have p: "row_info_key r = p" and rest: "rest = map scan_cols rs"
      by (auto simp: scan_cols_def)
    have rem': "remaining (advance c) = map scan_cols rs"
      using remaining_advance [OF skip(2)] rest by simp
    have ge: "\<forall>r\<in>set rs. p \<le> row_info_key r" using Cons.prems(4) by simp
    from Cons.IH [OF skip(3) rem' srt ge job] obtain new where
      new: "tr' = tr @ new" "sorted_wrt (<) (map fst new)"
        "\<forall>x\<in>set new. p < fst x \<and> is_newest rs jid (fst x) (fst (snd x))"
      by blast
    have "\<forall>x\<in>set new. p < fst x \<and> is_newest (r # rs) jid (fst x) (fst (snd x))"
      using new(3) is_newest_lift [OF new(3), of r] p by simp
    with new(1,2) show ?thesis by blast
  next
    case (bad_key kc vc rest)
    then show ?thesis by simp
  next
    case (bad_value k vc rest)
    then show ?thesis by simp
  next
    case (failed k v rest x)
    from failed(2) rem have k: "row_info_key r = k" and v: "row_value r = DBytes v"
      by (auto simp: scan_cols_def)
    from failed(4) have tr': "tr' = tr @ [(k, v, Some x)]"
      by (auto simp: traced_apply prod_eq_iff)
    have "p \<le> k" using Cons.prems(4) k by simp
    with failed(3) have pk: "p < k" by simp
    have "is_newest (r # rs) jid k v"
      using is_newest_head [OF Cons.prems(3) _ v] Cons.prems(5) k by simp
    with tr' pk show ?thesis by simp
  next
    case (visited k v rest s1)
    from visited(2) rem have k: "row_info_key r = k" and v: "row_value r = DBytes v"
      and rest: "rest = map scan_cols rs"
      by (auto simp: scan_cols_def)
    obtain s2 where s1: "s1 = (s2, tr @ [(k, v, None)])"
      using visited(4) by (auto simp: traced_apply prod_eq_iff)
    have rem': "remaining (advance c) = map scan_cols rs"
      using remaining_advance [OF visited(2)] rest by simp
    have ge: "\<forall>r'\<in>set rs. k \<le> row_info_key r'"
      using sorted_head_le [OF Cons.prems(3)] k by simp
    from Cons.IH [OF visited(5) [unfolded s1] rem' srt ge job] obtain new where
      new: "tr' = (tr @ [(k, v, None)]) @ new" "sorted_wrt (<) (map fst new)"
        "\<forall>x\<in>set new. k < fst x \<and> is_newest rs jid (fst x) (fst (snd x))"
      by blast
    have "p \<le> k" using Cons.prems(4) k by simp
    with visited(3) have pk: "p < k" by simp
    have hd: "is_newest (r # rs) jid k v"
      using is_newest_head [OF Cons.prems(3) _ v] Cons.prems(5) k by simp
    have tl: "\<forall>x\<in>set new. p < fst x \<and> is_newest (r # rs) jid (fst x) (fst (snd x))"
      using new(3) is_newest_lift [OF new(3), of r] k pk by auto
    have "tr' = tr @ ((k, v, None) # new)" using new(1) by simp
    moreover have "sorted_wrt (<) (map fst ((k, v, None) # new))"
      using new(2,3) by auto
    moreover have "\<forall>x\<in>set ((k, v, None) # new).
        p < fst x \<and> is_newest (r # rs) jid (fst x) (fst (snd x))"
      using hd tl pk by simp
    ultimately show ?thesis by blast
  qed
qed


subsection \<open>What the loop does after a failing visit\<close>

text \<open>Tracing does not change what the loop does.\<close>

lemma loop_traced:
  "iterate_loop (traced fn) p c (s, tr) = (e, c', (s', tr')) \<Longrightarrow>
   iterate_loop fn p c s = (e, c', s')"
proof (induction "remaining c" arbitrary: p c s tr)
  case Nil
  from Nil.prems show ?case
  proof (cases rule: loop_cases)
    case (fault err)
    then show ?thesis using loop_fault [OF fault(1), of fn p s] by simp
  next
    case finished
    then show ?thesis using loop_end [OF finished(1,2), of fn p s] by simp
  qed (use Nil.hyps in auto)
next
  case (Cons row rest0)
  from Cons.prems show ?case
  proof (cases rule: loop_cases)
    case (fault err)
    then show ?thesis using loop_fault [OF fault(1), of fn p s] by simp
  next
    case finished
    then show ?thesis using loop_end [OF finished(1,2), of fn p s] by simp
  next
    case (skip vc rest)
    have "rest0 = remaining (advance c)"
      using remaining_advance [OF skip(2)] Cons.hyps(2) skip(2) by simp
    from Cons.hyps(1) [OF this skip(3)] loop_skip [OF skip(1,2), of fn s]
    show ?thesis by simp
  next
    case (bad_key kc vc rest)
    then show ?thesis using loop_bad_key [OF bad_key(1,2,3), of fn p s] by simp
  next
    case (bad_value k vc rest)
    then show ?thesis using loop_bad_value [OF bad_value(1,2,3,4), of fn s] by simp
  next
    case (failed k v rest x)
    from failed(4) have "fn s k v = (Some x, s')"
      by (auto simp: traced_apply prod_eq_iff)
    with failed(5,6) show ?thesis using loop_visit [OF failed(1,2,3), of fn s] by simp
  next
    case (visited k v rest s1)
    from visited(4) have f: "fn s k v = (None, fst s1)" and s1: "s1 = (fst s1, tr @ [(k, v, None)])"
      by (auto simp: traced_apply prod_eq_iff)
    have "rest0 = remaining (advance c)"
      using remaining_advance [OF visited(2)] Cons.hyps(2) visited(2) by simp
    from Cons.hyps(1) [OF this, of k "fst s1" "tr @ [(k, v, None)]"] visited(5) s1
    have "iterate_loop fn k (advance c) (fst s1) = (e, c', s')" by simp
    with f show ?thesis using loop_visit [OF visited(1,2,3), of fn s] by simp
  qed
qed

text \<open>
  Only the last visit of a run can have failed; when it has, the loop returns its error and
  the cursor stands on the row of that visit.
\<close>

lemma loop_trace_abort:
  assumes "iterate_loop (traced fn) p c (s, tr) = (e, c', (s', tr'))"
  shows "\<exists>new. tr' = tr @ new \<and> (\<forall>x\<in>set (butlast new). snd (snd x) = None) \<and>
           s' = replay fn s new \<and>
           (\<forall>k v x. new \<noteq> [] \<and> last new = (k, v, Some x) \<longrightarrow>
              e = Some x \<and> Cur c' = (DBytes k, DBytes v) \<and>
              (\<exists>pre. remaining c = pre @ (DBytes k, DBytes v) # remaining c' \<and>
                 served c' = served c + Suc (length pre)))"
  using assms
proof (induction "remaining c" arbitrary: p c s tr)
  case Nil
  from Nil.prems show ?case
    by (cases rule: loop_cases) (use Nil.hyps in auto)
next
  case (Cons row rest0)
  from Cons.prems show ?case
  proof (cases rule: loop_cases)
    case (fault err)
    then show ?thesis by simp
  next
    case finished
    then show ?thesis by simp
  next
    case (skip vc rest)
    have r0: "rest0 = remaining (advance c)"
      using remaining_advance [OF skip(2)] Cons.hyps(2) skip(2) by simp
    from Cons.hyps(1) [OF r0 skip(3)] obtain new where
      new: "tr' = tr @ new" "\<forall>x\<in>set (butlast new). snd (snd x) = None"
        "s' = replay fn s new"
        "\<forall>k v x. new \<noteq> [] \<and> last new = (k, v, Some x) \<longrightarrow>
              e = Some x \<and> Cur c' = (DBytes k, DBytes v) \<and>
              (\<exists>pre. remaining (advance c) = pre @ (DBytes k, DBytes v) # remaining c' \<and>
                 served c' = served (advance c) + Suc (length pre))"
      by blast
    have "\<exists>pre. remaining c = pre @ (DBytes k, DBytes v) # remaining c' \<and>
                 served c' = served c + Suc (length pre)"
      if "remaining (advance c) = pre' @ (DBytes k, DBytes v) # remaining c'"
         "served c' = served (advance c) + Suc (length pre')" for k v pre'
    proof -
      have "remaining c = ((DBytes p, vc) # pre') @ (DBytes k, DBytes v) # remaining c'"
        using that(1) skip(2) remaining_advance [OF skip(2)] by simp
      moreover have "served c' = served c + Suc (length ((DBytes p, vc) # pre'))"
        using that(2) by (simp add: advance_fields)
      ultimately show ?thesis by blast
    qed
    with new(4) have "\<forall>k v x. new \<noteq> [] \<and> last new = (k, v, Some x) \<longrightarrow>
              e = Some x \<and> Cur c' = (DBytes k, DBytes v) \<and>
              (\<exists>pre. remaining c = pre @ (DBytes k, DBytes v) # remaining c' \<and>
                 served c' = served c + Suc (length pre))"
      by blast
    with new(1,2,3) show ?thesis by blast
  next
    case (bad_key kc vc rest)
    then show ?thesis by simp
  next
    case (bad_value k vc rest)
    then show ?thesis by simp
  next
    case (failed k v rest x)
    from failed(4) have f: "fn s k v = (Some x, s')" and tr': "tr' = tr @ [(k, v, Some x)]"
      by (auto simp: traced_apply prod_eq_iff)
    have "remaining c = [] @ (DBytes k, DBytes v) # remaining c'"
      using failed(2,6) remaining_advance [OF failed(2)] by simp
    moreover have "served c' = served c + Suc (length ([] :: (Datum \<times> Datum) list))"
      using failed(6) by (simp add: advance_fields)
    ultimately have "\<exists>pre. remaining c = pre @ (DBytes k, DBytes v) # remaining c' \<and>
                 served c' = served c + Suc (length pre)" by blast
    moreover have "Cur c' = (DBytes k, DBytes v)"
      using failed(6) advance_fields(3) [OF failed(2)] by simp
    ultimately show ?thesis using tr' f failed(5) by simp
  next
    case (visited k v rest s1)
    from visited(4) have f: "fn s k v = (None, fst s1)" and s1: "s1 = (fst s1, tr @ [(k, v, None)])"
      by (auto simp: traced_apply prod_eq_iff)
    have r0: "rest0 = remaining (advance c)"
      using remaining_advance [OF visited(2)] Cons.hyps(2) visited(2) by simp
    have run: "iterate_loop (traced fn) k (advance c) (fst s1, tr @ [(k, v, None)]) = (e, c', s', tr')"
      using visited(5) s1 by simp
    from Cons.hyps(1) [OF r0 run] obtain new where
      new: "tr' = (tr @ [(k, v, None)]) @ new" "\<forall>x\<in>set (butlast new). snd (snd x) = None"
        "s' = replay fn (fst s1) new"
        "\<forall>k' v' x. new \<noteq> [] \<and> last new = (k', v', Some x) \<longrightarrow>
              e = Some x \<and> Cur c' = (DBytes k', DBytes v') \<and>
              (\<exists>pre. remaining (advance c) = pre @ (DBytes k', DBytes v') # remaining c' \<and>
                 served c' = served (advance c) + Suc (length pre))"
      by blast
    let ?new = "(k, v, None) # new"
    have 1: "tr' = tr @ ?new" using new(1) by simp
    have 2: "\<forall>x\<in>set (butlast ?new). snd (snd x) = None" using new(2) by simp
    have 3: "s' = replay fn s ?new" using new(3) f by simp
    have lift: "\<exists>pre. remaining c = pre @ (DBytes k', DBytes v') # remaining c' \<and>
                 served c' = served c + Suc (length pre)"
      if "remaining (advance c) = pre' @ (DBytes k', DBytes v') # remaining c'"
         "served c' = served (advance c) + Suc (length pre')" for k' v' pre'
    proof -
      have "remaining c = ((DBytes k, DBytes v) # pre') @ (DBytes k', DBytes v') # remaining c'"
        using that(1) visited(2) remaining_advance [OF visited(2)] by simp
      moreover have "served c' = served c + Suc (length ((DBytes k, DBytes v) # pre'))"
        using that(2) by (simp add: advance_fields)
      ultimately show ?thesis by blast
    qed
    have 4: "\<forall>k' v' x. ?new \<noteq> [] \<and> last ?new = (k', v', Some x) \<longrightarrow>
              e = Some x \<and> Cur c' = (DBytes k', DBytes v') \<and>
              (\<exists>pre. remaining c = pre @ (DBytes k', DBytes v') # remaining c' \<and>
                 served c' = served c + Suc (length pre))"
    proof (intro allI impI)
      fix k' v' x assume a: "?new \<noteq> [] \<and> last ?new = (k', v', Some x)"
      then have ne: "new \<noteq> []" and l: "last new = (k', v', Some x)"
        by (auto split: if_splits)
      from new(4) ne l have "e = Some x" "Cur c' = (DBytes k', DBytes v')"
        "\<exists>pre. remaining (advance c) = pre @ (DBytes k', DBytes v') # remaining c' \<and>
                 served c' = served (advance c) + Suc (length pre)"
        by blast+
      then show "e = Some x \<and> Cur c' = (DBytes k', DBytes v') \<and>
              (\<exists>pre. remaining c = pre @ (DBytes k', DBytes v') # remaining c' \<and>
                 served c' = served c + Suc (length pre))"
        using lift by blast
    qed
    from 1 2 3 4 show ?thesis by blast
  qed
qed


subsection \<open>\<^verbatim>\<open>iterate\<close> around the loop\<close>

lemma iterate_nil:
  "txn i = None \<Longrightarrow>
   iterate i infoPrefix fn s =
     (Some (New ''cannot iterate over the job info table without an associated txn''),
      s, i, None)"
  by (simp add: iterate_def)

lemma iterate_query_fault:
  "txn i = Some t \<Longrightarrow> map_of (faults t) (length (stmts t)) = Some e \<Longrightarrow>
   iterate i infoPrefix fn s =
     (Some e, s, i\<lparr>txn := Some (t\<lparr>stmts := stmts t @ [''job-info-iter'']\<rparr>)\<rparr>, None)"
  by (simp add: iterate_def query_job_info_iter_def issue_def)

lemma iterate_unopened:
  assumes "txn i = None \<or> (\<exists>t. txn i = Some t \<and> map_of (faults t) (length (stmts t)) \<noteq> None)"
  shows "\<exists>e i'. iterate i infoPrefix fn s = (Some e, s, i', None)"
  using assms iterate_nil [of i infoPrefix fn s] iterate_query_fault [of i _ _ infoPrefix fn s]
  by auto

lemma iterate_opened:
  assumes "txn i = Some t" and "map_of (faults t) (length (stmts t)) = None"
    and "iterate_loop fn [] (open_cursor t (ID (j i)) infoPrefix) s = (retErr, c', s')"
  shows "iterate i infoPrefix fn s =
           (CombineErrors retErr (rows_close_fault c'), s',
            i\<lparr>txn := Some (t\<lparr>stmts := stmts t @ [''job-info-iter'']\<rparr>)\<rparr>,
            Some (c'\<lparr>closed := True\<rparr>))"
proof -
  have "open_cursor (t\<lparr>stmts := stmts t @ [''job-info-iter'']\<rparr>) (ID (j i)) infoPrefix =
        open_cursor t (ID (j i)) infoPrefix"
    by (simp add: open_cursor_def)
  with assms show ?thesis
    by (simp add: iterate_def query_job_info_iter_def issue_def Close_def)
qed

lemma iterate_cases [consumes 1, case_names unopened opened]:
  assumes run: "iterate i infoPrefix fn s = (err, s', i', rows)"
    and unopened: "\<And>e. txn i = None \<or>
          (\<exists>t. txn i = Some t \<and> map_of (faults t) (length (stmts t)) \<noteq> None) \<Longrightarrow>
        err = Some e \<Longrightarrow> s' = s \<Longrightarrow> rows = None \<Longrightarrow> P"
    and opened: "\<And>t retErr c'. txn i = Some t \<Longrightarrow>
        map_of (faults t) (length (stmts t)) = None \<Longrightarrow>
        iterate_loop fn [] (open_cursor t (ID (j i)) infoPrefix) s = (retErr, c', s') \<Longrightarrow>
        err = CombineErrors retErr (rows_close_fault c') \<Longrightarrow>
        i' = i\<lparr>txn := Some (t\<lparr>stmts := stmts t @ [''job-info-iter'']\<rparr>)\<rparr> \<Longrightarrow>
        rows = Some (c'\<lparr>closed := True\<rparr>) \<Longrightarrow> P"
  shows P
proof (cases "txn i = None \<or>
          (\<exists>t. txn i = Some t \<and> map_of (faults t) (length (stmts t)) \<noteq> None)")
  case True
  from iterate_unopened [OF True, of infoPrefix fn s] run
  obtain e where "err = Some e" "s' = s" "rows = None" by auto
  then show P by (rule unopened [OF True])
next
  case False
  then obtain t where t: "txn i = Some t" "map_of (faults t) (length (stmts t)) = None"
    by auto
  obtain retErr c' s1 where
    l: "iterate_loop fn [] (open_cursor t (ID (j i)) infoPrefix) s = (retErr, c', s1)"
    by (cases "iterate_loop fn [] (open_cursor t (ID (j i)) infoPrefix) s")
  from iterate_opened [OF t l] run
  have *: "err = CombineErrors retErr (rows_close_fault c')" "s1 = s'"
    "i' = i\<lparr>txn := Some (t\<lparr>stmts := stmts t @ [''job-info-iter'']\<rparr>)\<rparr>"
    "rows = Some (c'\<lparr>closed := True\<rparr>)" by simp_all
  from opened [OF t l [unfolded *(2)] *(1,3,4)] show P .
qed

lemma iterate_traced:
  assumes "iterate i infoPrefix (traced fn) (s, tr) = (err, (s', tr'), i', rows)"
  shows "iterate i infoPrefix fn s = (err, s', i', rows)"
proof (cases "txn i")
  case None
  from assms iterate_nil [OF None, of infoPrefix "traced fn" "(s, tr)"]
    iterate_nil [OF None, of infoPrefix fn s]
  show ?thesis by simp
next
  case (Some t)
  show ?thesis
  proof (cases "map_of (faults t) (length (stmts t))")
    case (Some e)
    from assms iterate_query_fault [OF \<open>txn i = Some t\<close> Some, of infoPrefix "traced fn" "(s, tr)"]
      iterate_query_fault [OF \<open>txn i = Some t\<close> Some, of infoPrefix fn s]
    show ?thesis by simp
  next
    case None
    obtain retErr c' where
      l: "iterate_loop (traced fn) [] (open_cursor t (ID (j i)) infoPrefix) (s, tr) =
            (retErr, c', (s', tr'))"
      using assms iterate_opened [OF \<open>txn i = Some t\<close> None, of "traced fn" infoPrefix "(s, tr)"]
      by (cases "iterate_loop (traced fn) [] (open_cursor t (ID (j i)) infoPrefix) (s, tr)") auto
    from assms iterate_opened [OF \<open>txn i = Some t\<close> None l]
      iterate_opened [OF \<open>txn i = Some t\<close> None loop_traced [OF l]]
    show ?thesis by simp
  qed
qed

lemma select_prefix_sorted: "sorted (map scan_key (select_prefix rs jid infoPrefix))"
  by (simp add: select_prefix_def)

lemma set_select_prefix:
  "set (select_prefix rs jid infoPrefix) = {r \<in> set rs. prefix_match jid infoPrefix r}"
  by (simp add: select_prefix_def)

lemma is_newest_select:
  assumes "is_newest (select_prefix rs jid infoPrefix) jid k v"
  shows "is_newest rs jid k v \<and> take (length infoPrefix) k = infoPrefix"
  using assms
  unfolding is_newest_def set_select_prefix
  by (auto simp: prefix_match_def key_match_def)

lemma iterate_trace_newest:
  assumes "iterate i infoPrefix (traced fn) (s, []) = (err, (s', tr), i', rows)"
  shows "sorted_wrt (<) (map fst tr) \<and>
         (\<forall>x\<in>set tr. fst x \<noteq> [] \<and> take (length infoPrefix) (fst x) = infoPrefix \<and>
            (\<forall>t. txn i = Some t \<longrightarrow> is_newest (job_info t) (ID (j i)) (fst x) (fst (snd x))))"
  using assms
proof (cases rule: iterate_cases)
  case (unopened e)
  then show ?thesis by simp
next
  case (opened t retErr c')
  let ?rs = "select_prefix (job_info t) (ID (j i)) infoPrefix"
  have rem: "remaining (open_cursor t (ID (j i)) infoPrefix) = map scan_cols ?rs"
    by (simp add: open_cursor_def)
  have ge: "\<forall>r\<in>set ?rs. [] \<le> row_info_key r" by simp
  have job: "\<forall>r\<in>set ?rs. row_job_id r = ID (j i)"
    by (simp add: set_select_prefix prefix_match_def)
  from loop_trace_sorted [OF opened(3) rem select_prefix_sorted ge job]
  obtain new where new: "tr = [] @ new" "sorted_wrt (<) (map fst new)"
    "\<forall>x\<in>set new. [] < fst x \<and> is_newest ?rs (ID (j i)) (fst x) (fst (snd x))"
    by blast
  from new(1) have eq: "new = tr" by simp
  have "\<forall>x\<in>set tr. fst x \<noteq> [] \<and> take (length infoPrefix) (fst x) = infoPrefix \<and>
            (\<forall>t. txn i = Some t \<longrightarrow> is_newest (job_info t) (ID (j i)) (fst x) (fst (snd x)))"
  proof
    fix x assume "x \<in> set tr"
    with new(3) eq have a: "[] < fst x" and b: "is_newest ?rs (ID (j i)) (fst x) (fst (snd x))"
      by auto
    from a have "fst x \<noteq> []" by auto
    with is_newest_select [OF b] opened(1)
    show "fst x \<noteq> [] \<and> take (length infoPrefix) (fst x) = infoPrefix \<and>
            (\<forall>t. txn i = Some t \<longrightarrow> is_newest (job_info t) (ID (j i)) (fst x) (fst (snd x)))"
      by simp
  qed
  with new(2) eq show ?thesis by simp
qed


lemma failed_visit_is_last:
  assumes "\<forall>x\<in>set (butlast tr). snd (snd x) = None" and "(k, v, Some e) \<in> set tr"
  shows "tr \<noteq> [] \<and> last tr = (k, v, Some e)"
proof -
  from assms(2) have ne: "tr \<noteq> []" by auto
  then have "tr = butlast tr @ [last tr]" by simp
  then have "set tr = set (butlast tr) \<union> {last tr}"
    by (metis Un_insert_right list.simps(15) set_append sup_bot.right_neutral list.set(1))
  with assms have "(k, v, Some e) = last tr" by auto
  with ne show ?thesis by simp
qed

subsection \<open>C3: de-duplication and order of the scan\<close>



subsection \<open>C10: a record under the empty key is never visited\<close>

text \<open>
  Claim C10. No call of the visitor has the empty key: \<open>prevKey\<close> starts empty, the rows
  of the empty key come first in the scan, and each of them equals \<open>prevKey\<close>.
\<close>

theorem empty_key_never_visited:
  assumes "Iterate i infoPrefix (traced fn) (s, []) = (err, (s', tr), i', rows)"
  shows "\<forall>x\<in>set tr. fst x \<noteq> []"
proof -
  from assms have run: "iterate i infoPrefix (traced fn) (s, []) = (err, (s', tr), i', rows)"
    by (simp add: Iterate_def)
  from iterate_trace_newest [OF run] show ?thesis by simp
qed

theorem empty_key_never_visited_witness:
  "(\<exists>r\<in>set (job_info ex_empty_txn). row_info_key r = [] \<and> prefix_match 7 [] r) \<and>
   fst (Iterate ex_empty [] (traced count_visits) (0, [])) = None \<and>
   snd (fst (snd (Iterate ex_empty [] (traced count_visits) (0, [])))) =
     [(''a/1'', ''v1'', None)] \<and>
   [] \<notin> fst ` set (snd (fst (snd (Iterate ex_empty [] (traced count_visits) (0, [])))))"
proof -
  let ?R = "Iterate ex_empty [] (traced count_visits) (0, [])"
  have a: "\<exists>r\<in>set (job_info ex_empty_txn). row_info_key r = [] \<and> prefix_match 7 [] r"
    by (simp add: ex_empty_txn_def prefix_match_def)
  have b: "fst ?R = None" by code_simp
  have c: "snd (fst (snd ?R)) = [(''a/1'', ''v1'', None)]" by code_simp
  have h: "?R = (fst ?R, (fst (fst (snd ?R)), snd (fst (snd ?R))), fst (snd (snd ?R)),
                 snd (snd (snd ?R)))" by simp
  from empty_key_never_visited [OF h]
  have d: "[] \<notin> fst ` set (snd (fst (snd ?R)))" by force
  from a b c d show ?thesis by blast
qed

subsection \<open>C6: a failing visit ends the scan\<close>

text \<open>
  Claim C6. In every run of \<open>Iterate\<close>: only the last call of the visitor can have failed;
  the visitor's state is the one its calls left, in order; a cursor that was opened is
  closed when \<open>Iterate\<close> returns, on every path, and none is opened only when the
  transaction is nil or the query fails. When a call failed with \<open>x\<close>, the error returned is
  \<open>x\<close>, carrying the error of \<^verbatim>\<open>Close\<close> as secondary error when closing fails too; the
  cursor stands on the row of that call, \<^verbatim>\<open>Next\<close> was called once per row up to it and
  never after, and the rows behind it are still unserved.
\<close>

theorem visitor_error_abort:
  assumes "Iterate i infoPrefix (traced fn) (s, []) = (err, (s', tr), i', rows)"
  shows "Iterate i infoPrefix fn s = (err, s', i', rows) \<and>
         (\<forall>x\<in>set (butlast tr). snd (snd x) = None) \<and>
         s' = replay fn s tr \<and>
         (\<forall>c. rows = Some c \<longrightarrow> closed c) \<and>
         (rows = None \<longleftrightarrow>
            txn i = None \<or>
            (\<exists>t. txn i = Some t \<and> map_of (faults t) (length (stmts t)) \<noteq> None)) \<and>
         (\<forall>k v x. (k, v, Some x) \<in> set tr \<longrightarrow>
            last tr = (k, v, Some x) \<and>
            (\<exists>t c. txn i = Some t \<and> rows = Some c \<and> closed c \<and>
               err = CombineErrors (Some x) (rows_close_fault c) \<and>
               Cur c = (DBytes k, DBytes v) \<and>
               (\<exists>pre. remaining (open_cursor t (ID (j i)) infoPrefix) =
                        pre @ (DBytes k, DBytes v) # remaining c \<and>
                      served c = Suc (length pre))))"
proof -
  from assms have run: "iterate i infoPrefix (traced fn) (s, []) = (err, (s', tr), i', rows)"
    by (simp add: Iterate_def)
  have 1: "Iterate i infoPrefix fn s = (err, s', i', rows)"
    using iterate_traced [OF run] by (simp add: Iterate_def)
  from run show ?thesis
  proof (cases rule: iterate_cases)
    case (unopened e)
    then show ?thesis using 1 by auto
  next
    case (opened t retErr c')
    let ?opened = "open_cursor t (ID (j i)) infoPrefix"
    from loop_trace_abort [OF opened(3)] obtain new where
      new: "tr = [] @ new" "\<forall>x\<in>set (butlast new). snd (snd x) = None"
        "s' = replay fn s new"
        "\<forall>k v x. new \<noteq> [] \<and> last new = (k, v, Some x) \<longrightarrow>
              retErr = Some x \<and> Cur c' = (DBytes k, DBytes v) \<and>
              (\<exists>pre. remaining ?opened = pre @ (DBytes k, DBytes v) # remaining c' \<and>
                 served c' = served ?opened + Suc (length pre))"
      by blast
    from new(1) have eq: "new = tr" by simp
    have 2: "\<forall>x\<in>set (butlast tr). snd (snd x) = None" using new(2) eq by simp
    have 3: "s' = replay fn s tr" using new(3) eq by simp
    have 4: "\<forall>c. rows = Some c \<longrightarrow> closed c" using opened(6) by simp
    have 5: "rows = None \<longleftrightarrow>
            txn i = None \<or>
            (\<exists>t. txn i = Some t \<and> map_of (faults t) (length (stmts t)) \<noteq> None)"
      using opened(1,2,6) by simp
    have 6: "\<forall>k v x. (k, v, Some x) \<in> set tr \<longrightarrow>
            last tr = (k, v, Some x) \<and>
            (\<exists>t c. txn i = Some t \<and> rows = Some c \<and> closed c \<and>
               err = CombineErrors (Some x) (rows_close_fault c) \<and>
               Cur c = (DBytes k, DBytes v) \<and>
               (\<exists>pre. remaining (open_cursor t (ID (j i)) infoPrefix) =
                        pre @ (DBytes k, DBytes v) # remaining c \<and>
                      served c = Suc (length pre)))"
    proof (intro allI impI)
      fix k v x assume m: "(k, v, Some x) \<in> set tr"
      from failed_visit_is_last [OF 2 m] have l: "tr \<noteq> []" "last tr = (k, v, Some x)"
        by simp_all
      with new(4) eq obtain pre where
        p: "retErr = Some x" "Cur c' = (DBytes k, DBytes v)"
          "remaining ?opened = pre @ (DBytes k, DBytes v) # remaining c'"
          "served c' = served ?opened + Suc (length pre)"
        by blast
      let ?final = "c'\<lparr>closed := True\<rparr>"
      have a: "rows = Some ?final" "closed ?final" using opened(6) by simp_all
      have b: "err = CombineErrors (Some x) (rows_close_fault ?final)"
        using opened(4) p(1) by simp
      have c: "Cur ?final = (DBytes k, DBytes v)" using p(2) by (simp add: Cur_def)
      have d: "remaining ?opened = pre @ (DBytes k, DBytes v) # remaining ?final"
        using p(3) by simp
      have e: "served ?final = Suc (length pre)" using p(4) by (simp add: open_cursor_def)
      from opened(1) a b c d e
      have "txn i = Some t \<and> rows = Some ?final \<and> closed ?final \<and>
               err = CombineErrors (Some x) (rows_close_fault ?final) \<and>
               Cur ?final = (DBytes k, DBytes v) \<and>
               remaining ?opened = pre @ (DBytes k, DBytes v) # remaining ?final \<and>
                      served ?final = Suc (length pre)"
        by blast
      then show "last tr = (k, v, Some x) \<and>
            (\<exists>t c. txn i = Some t \<and> rows = Some c \<and> closed c \<and>
               err = CombineErrors (Some x) (rows_close_fault c) \<and>
               Cur c = (DBytes k, DBytes v) \<and>
               (\<exists>pre. remaining (open_cursor t (ID (j i)) infoPrefix) =
                        pre @ (DBytes k, DBytes v) # remaining c \<and>
                      served c = Suc (length pre)))"
        using l(2) by blast
    qed
    from 1 2 3 4 5 6 show ?thesis by blast
  qed
qed

theorem visitor_error_abort_witness:
  "fst (Iterate ex_log [] (traced fail_on_a2) (0, [])) = Some (New ''boom'') \<and>
   snd (fst (snd (Iterate ex_log [] (traced fail_on_a2) (0, [])))) =
     [(''a/1'', ''new1'', None), (''a/2'', ''new2'', Some (New ''boom''))] \<and>
   (\<exists>c. snd (snd (snd (Iterate ex_log [] (traced fail_on_a2) (0, [])))) = Some c \<and>
      closed c \<and> Cur c = (DBytes ''a/2'', DBytes ''new2'') \<and>
      (\<exists>pre. remaining (open_cursor ex_log_txn 7 []) =
               pre @ (DBytes ''a/2'', DBytes ''new2'') # remaining c \<and>
             served c = Suc (length pre)))"
proof -
  let ?R = "Iterate ex_log [] (traced fail_on_a2) (0, [])"
  have a: "fst ?R = Some (New ''boom'')" by code_simp
  have b: "snd (fst (snd ?R)) =
     [(''a/1'', ''new1'', None), (''a/2'', ''new2'', Some (New ''boom''))]" by code_simp
  have h: "?R = (fst ?R, (fst (fst (snd ?R)), snd (fst (snd ?R))), fst (snd (snd ?R)),
                 snd (snd (snd ?R)))" by simp
  have t: "txn ex_log = Some ex_log_txn" "ID (j ex_log) = 7" by (simp_all add: ex_log_def)
  have m: "(''a/2'', ''new2'', Some (New ''boom'')) \<in> set (snd (fst (snd ?R)))"
    using b by simp
  from visitor_error_abort [OF h] m
  have "\<exists>t c. txn ex_log = Some t \<and> snd (snd (snd ?R)) = Some c \<and> closed c \<and>
               fst ?R = CombineErrors (Some (New ''boom'')) (rows_close_fault c) \<and>
               Cur c = (DBytes ''a/2'', DBytes ''new2'') \<and>
               (\<exists>pre. remaining (open_cursor t (ID (j ex_log)) []) =
                        pre @ (DBytes ''a/2'', DBytes ''new2'') # remaining c \<and>
                      served c = Suc (length pre))"
    by blast
  with t have "\<exists>c. snd (snd (snd ?R)) = Some c \<and>
      closed c \<and> Cur c = (DBytes ''a/2'', DBytes ''new2'') \<and>
      (\<exists>pre. remaining (open_cursor ex_log_txn 7 []) =
               pre @ (DBytes ''a/2'', DBytes ''new2'') # remaining c \<and>
             served c = Suc (length pre))"
    by auto
  with a b show ?thesis by blast
qed

subsection \<open>C7: the errors of the claim check\<close>






end
